theory Spec2Isabelle
  imports Main "HOL-Library.Code_Target_Numeral"
begin

section \<open>Data model (types.ts)\<close>

text \<open>
  A browser \<open>File\<close> as far as the application reads it: its name, its MIME type, the
  relative path the directory picker reports, and the bytes it stands for.
\<close>

record File =
  name :: string
  type :: string
  webkitRelativePath :: string
  content :: string

text \<open>\<open>stage: 1 | 2 | 3\<close> (1: Import/Rename, 2: Analyze/Edit, 3: Export).\<close>

datatype Stage = Stage1 | Stage2 | Stage3

datatype Status = Idle | Processing | Success | Error

text \<open>
  \<open>FileQueueItem\<close>. The field \<open>id\<close> of the source is \<open>item_id\<close> here (\<open>id\<close> is the
  identity function of HOL). The optional fields are \<open>None\<close> when the property is
  \<open>undefined\<close>.
\<close>

record FileQueueItem =
  item_id :: string
  "file" :: File
  originalName :: string
  folderName :: string
  stage :: Stage
  status :: Status
  temperature :: "string option"
  newName :: "string option"
  previewName :: "string option"

text \<open>
  JavaScript truthiness of an optional string, as tested by \<open>if (item.newName)\<close>,
  \<open>!i.temperature\<close> and \<open>item.temperature || "N/A"\<close>: \<open>undefined\<close> and the empty
  string are falsy.
\<close>

fun truthy :: "string option \<Rightarrow> bool" where
  "truthy None = False"
| "truthy (Some s) = (s \<noteq> [])"

text \<open>
  The values of the \<open>number\<close> the component keeps in \<open>startIndex\<close>. A number is a
  double: \<open>parseInt\<close> returns \<open>NaN\<close> when the input field holds no number (an empty
  field, for one), an infinity for a digit string beyond the range, and otherwise the
  double nearest to the integer read. \<open>Num n\<close> is the double whose value is the integer
  \<open>n\<close>: every integer up to \<open>2^53\<close> in magnitude is one, and beyond that only the
  integers with at most 53 significant bits. (The negative zero is not told apart from
  zero: it prints and adds as zero does.)
\<close>

datatype JSNumber = NaN | Num int | PosInfinity | NegInfinity

text \<open>
  The double nearest to an integer, ties to the even significand: the rounding of every
  arithmetic result. \<open>bitLength\<close> is the number of binary digits.
\<close>

fun bitLength :: "nat \<Rightarrow> nat" where
  "bitLength n = (if n = 0 then 0 else Suc (bitLength (n div 2)))"

declare bitLength.simps [simp del]

definition roundDouble :: "int \<Rightarrow> int" where
  "roundDouble m =
     (if \<bar>m\<bar> \<le> 2 ^ 53 then m
      else
        (let a = nat \<bar>m\<bar>;
             e = bitLength a - 53;
             q = a div 2 ^ e;
             r = a mod 2 ^ e;
             half = 2 ^ (e - 1);
             q' = (if r > half \<or> (r = half \<and> odd q) then q + 1 else q)
         in sgn m * int (q' * 2 ^ e)))"

definition toNumber :: "int \<Rightarrow> JSNumber" where
  "toNumber m =
     (let r = roundDouble m
      in if r \<ge> 2 ^ 1024 then PosInfinity
         else if r \<le> - (2 ^ 1024) then NegInfinity
         else Num r)"

text \<open>
  \<open>x + k\<close> and \<open>x++\<close> for an integer count \<open>k\<close>: the exact sum, rounded. \<open>NaN\<close> and
  the infinities absorb.
\<close>

fun jsAdd :: "JSNumber \<Rightarrow> int \<Rightarrow> JSNumber" where
  "jsAdd NaN k = NaN"
| "jsAdd PosInfinity k = PosInfinity"
| "jsAdd NegInfinity k = NegInfinity"
| "jsAdd (Num n) k = toNumber (n + k)"

text \<open>The component's state: the five \<open>useState\<close> cells of \<open>App\<close>.\<close>

record AppState =
  queue :: "FileQueueItem list"
  prefix :: string
  startIndex :: JSNumber
  filterSuffix :: string
  onlyFilter :: bool

text \<open>What the handlers show to the user: \<open>alert\<close> and \<open>window.confirm\<close>.\<close>

datatype Dialog = Alert string | Confirm string

section \<open>String primitives of the language\<close>

text \<open>\<open>s.lastIndexOf(c)\<close>: the index of the last occurrence, or \<open>-1\<close>.\<close>

definition lastIndexOf :: "string \<Rightarrow> char \<Rightarrow> int" where
  "lastIndexOf s c =
     (if c \<in> set s then int (length s) - 1 - int (length (takeWhile (\<lambda>x. x \<noteq> c) (rev s)))
      else - 1)"

text \<open>\<open>s.slice(start)\<close>: a negative start counts from the end, and both are clamped.\<close>

definition slice :: "string \<Rightarrow> int \<Rightarrow> string" where
  "slice s start =
     (let len = int (length s);
          from = (if start < 0 then max (len + start) 0 else min start len)
      in drop (nat from) s)"

text \<open>\<open>x >>> 0\<close>: the conversion of an integer to an unsigned 32-bit integer.\<close>

definition toUint32 :: "int \<Rightarrow> int" where
  "toUint32 x = x mod 2 ^ 32"

text \<open>\<open>s.endsWith(suffix)\<close>.\<close>

definition endsWith :: "string \<Rightarrow> string \<Rightarrow> bool" where
  "endsWith s suf = (length suf \<le> length s \<and> drop (length s - length suf) s = suf)"

text \<open>\<open>s.split(c)\<close> for a one-character separator: never empty, \<open>"".split("/") = [""]\<close>.\<close>

fun splitOn :: "string \<Rightarrow> char \<Rightarrow> string list" where
  "splitOn [] c = [[]]"
| "splitOn (x # xs) c =
     (if x = c then [] # splitOn xs c
      else (case splitOn xs c of
              [] \<Rightarrow> [[x]]
            | w # ws \<Rightarrow> (x # w) # ws))"

text \<open>Decimal digits of a natural number, and of an integer with its sign.\<close>

definition digitChar :: "nat \<Rightarrow> char" where
  "digitChar d = ''0123456789'' ! d"

fun digits :: "nat \<Rightarrow> string" where
  "digits n = (if n < 10 then [digitChar n] else digits (n div 10) @ [digitChar (n mod 10)])"

declare digits.simps [simp del]

definition intToString :: "int \<Rightarrow> string" where
  "intToString n = (if n < 0 then CHR ''-'' # digits (nat (- n)) else digits (nat n))"

text \<open>
  \<open>x.toString()\<close> for a number. An integer up to \<open>2^53\<close> in magnitude prints as its
  decimal digits. A larger double \<open>a\<close> prints the shortest digit string \<open>s\<close>, of \<open>k\<close>
  digits, such that \<open>s * 10^(n - k)\<close> rounds to \<open>a\<close>, the closest to \<open>a\<close> when there are
  several (the even one on a tie): followed by \<open>n - k\<close> zeros when \<open>n \<le> 21\<close>, and in
  exponent notation otherwise (\<open>1e+21\<close>). Seventeen digits are always enough.
\<close>

definition candidates :: "nat \<Rightarrow> nat \<Rightarrow> (nat \<times> nat) list" where
  "candidates a k =
     concat (map (\<lambda>n.
        if n < k then []
        else filter (\<lambda>(s, n). 10 ^ (k - 1) \<le> s \<and> s < 10 ^ k
                              \<and> roundDouble (int (s * 10 ^ (n - k))) = int a)
               [(a div 10 ^ (n - k), n), (a div 10 ^ (n - k) + 1, n)])
       [length (digits a), Suc (length (digits a))])"

definition distanceTo :: "nat \<Rightarrow> nat \<Rightarrow> nat \<times> nat \<Rightarrow> nat" where
  "distanceTo a k c = (case c of (s, n) \<Rightarrow> nat \<bar>int (s * 10 ^ (n - k)) - int a\<bar>)"

fun closest :: "nat \<Rightarrow> nat \<Rightarrow> (nat \<times> nat) list \<Rightarrow> (nat \<times> nat) option" where
  "closest a k [] = None"
| "closest a k (c # cs) =
     (case closest a k cs of
        None \<Rightarrow> Some c
      | Some d \<Rightarrow>
          if distanceTo a k c < distanceTo a k d then Some c
          else if distanceTo a k c = distanceTo a k d \<and> even (fst c) then Some c
          else Some d)"

fun shortest :: "nat \<Rightarrow> nat list \<Rightarrow> (nat \<times> nat \<times> nat) option" where
  "shortest a [] = None"
| "shortest a (k # ks) =
     (case closest a k (candidates a k) of
        Some (s, n) \<Rightarrow> Some (s, n, k)
      | None \<Rightarrow> shortest a ks)"

definition bigToString :: "nat \<Rightarrow> string" where
  "bigToString a =
     (case shortest a [1..<18] of
        None \<Rightarrow> digits a
      | Some (s, n, k) \<Rightarrow>
          if n \<le> 21 then digits s @ replicate (n - k) CHR ''0''
          else if k = 1 then digits s @ ''e+'' @ digits (n - 1)
          else hd (digits s) # ''.'' @ tl (digits s) @ ''e+'' @ digits (n - 1))"

fun numberToString :: "JSNumber \<Rightarrow> string" where
  "numberToString NaN = ''NaN''"
| "numberToString PosInfinity = ''Infinity''"
| "numberToString NegInfinity = ''-Infinity''"
| "numberToString (Num n) =
     (let v = roundDouble n
      in if \<bar>v\<bar> \<le> 2 ^ 53 then intToString v
         else if v < 0 then CHR ''-'' # bigToString (nat (- v))
         else bigToString (nat v))"

text \<open>\<open>str.padStart(targetLength, padString)\<close>.\<close>

definition padStart :: "string \<Rightarrow> nat \<Rightarrow> string \<Rightarrow> string" where
  "padStart str targetLength padString =
     (let fillLen = targetLength - length str
      in if fillLen = 0 \<or> padString = [] then str
         else take fillLen (concat (replicate fillLen padString)) @ str)"

text \<open>ASCII lower case, for the \<open>i\<close> flag of the regular expression below.\<close>

definition toLowerAscii :: "char \<Rightarrow> char" where
  "toLowerAscii c =
     (case map_of (zip ''ABCDEFGHIJKLMNOPQRSTUVWXYZ'' ''abcdefghijklmnopqrstuvwxyz'') c of
        None \<Rightarrow> c
      | Some l \<Rightarrow> l)"

section \<open>Helpers of the component\<close>

text \<open>
  \<open>getExtension\<close>: \<open>filename.slice((filename.lastIndexOf(".") - 1 >>> 0) + 2)\<close>.
  The subtraction binds tighter than the shift.
\<close>

definition getExtension :: "string \<Rightarrow> string" where
  "getExtension filename = slice filename (toUint32 (lastIndexOf filename CHR ''.'' - 1) + 2)"

text \<open>
  \<open>isImageFile\<close>: the MIME type is one of four, or the name matches
  \<open>/\.(jpg|jpeg|png|webp)$/i\<close>.
\<close>

definition validTypes :: "string list" where
  "validTypes = [''image/jpeg'', ''image/png'', ''image/jpg'', ''image/webp'']"

definition imageNameTest :: "string \<Rightarrow> bool" where
  "imageNameTest n =
     list_ex (endsWith (map toLowerAscii n)) [''.jpg'', ''.jpeg'', ''.png'', ''.webp'']"

definition isImageFile :: "File \<Rightarrow> bool" where
  "isImageFile f = (type f \<in> set validTypes \<or> imageNameTest (name f))"

section \<open>The preview effect\<close>

text \<open>
  The body of the \<open>useEffect\<close>: a \<open>map\<close> over the queue whose callback increments the
  local \<open>currentSequence\<close> at every stage-1 item.
\<close>

fun previewLoop :: "string \<Rightarrow> JSNumber \<Rightarrow> FileQueueItem list \<Rightarrow> FileQueueItem list" where
  "previewLoop pre currentSequence [] = []"
| "previewLoop pre currentSequence (item # items) =
     (if stage item = Stage1 then
        (let ext = getExtension (originalName item);
             sequenceStr = padStart (numberToString currentSequence) 3 ''0'';
             preview = pre @ sequenceStr @ ''.'' @ ext
         in item\<lparr>previewName := Some preview\<rparr> # previewLoop pre (jsAdd currentSequence 1) items)
      else item # previewLoop pre currentSequence items)"

definition previewEffect :: "AppState \<Rightarrow> AppState" where
  "previewEffect s = s\<lparr>queue := previewLoop (prefix s) (startIndex s) (queue s)\<rparr>"

section \<open>Handlers\<close>

text \<open>
  \<open>processFiles\<close>. \<open>random k\<close> is what the \<open>k\<close>-th evaluation of
  \<open>Math.random().toString(36).substr(2, 9)\<close> of this call returns; the callback of
  \<open>imageFiles.map\<close> evaluates it once per image file, in order.
\<close>

definition makeItem :: "string \<Rightarrow> File \<Rightarrow> FileQueueItem" where
  "makeItem rid f =
     (let pathParts = splitOn (webkitRelativePath f) CHR ''/'';
          folder = (if length pathParts > 1 then pathParts ! (length pathParts - 2) else ''Root'')
      in \<lparr>item_id = rid, file = f, originalName = name f, folderName = folder,
          stage = Stage1, status = Idle, temperature = None, newName = None,
          previewName = None\<rparr>)"

definition processFiles :: "(nat \<Rightarrow> string) \<Rightarrow> File list \<Rightarrow> AppState \<Rightarrow> Dialog list \<times> AppState" where
  "processFiles random files s =
     (let imageFiles = filter isImageFile files
      in if length imageFiles = 0 \<and> length files > 0
         then ([Alert ''No valid image files (JPG, PNG) found.''], s)
         else
           (let newItems = map (\<lambda>(k, f). makeItem (random k) f) (enumerate 0 imageFiles);
                filteredFiles =
                  (if onlyFilter s
                   then filter (\<lambda>f. endsWith (folderName f) (filterSuffix s)) newItems
                   else newItems);
                alerts =
                  (if length filteredFiles = 0 \<and> length newItems > 0
                   then [Alert (''No files found in folders ending with '' @ [CHR 0x22]
                                @ filterSuffix s @ [CHR 0x22] @ ''.'')]
                   else [])
            in (alerts, s\<lparr>queue := queue s @ filteredFiles\<rparr>)))"

text \<open>\<open>moveToStage2\<close>; \<open>confirmed\<close> is the answer of \<open>window.confirm\<close>.\<close>

definition moveToStage2 :: "bool \<Rightarrow> AppState \<Rightarrow> Dialog list \<times> AppState" where
  "moveToStage2 confirmed s =
     (if \<not> confirmed then ([Confirm ''Confirm renaming? This will lock the filenames.''], s)
      else
        (let stage1Count = length (filter (\<lambda>i. stage i = Stage1) (queue s))
         in ([Confirm ''Confirm renaming? This will lock the filenames.''],
             s\<lparr>queue :=
                  map (\<lambda>item.
                         if stage item = Stage1
                         then item\<lparr>stage := Stage2, newName := previewName item, status := Idle\<rparr>
                         else item)
                      (queue s),
               startIndex := jsAdd (startIndex s) (int stage1Count)\<rparr>)))"

text \<open>
  \<open>moveToStage3\<close>; \<open>window.confirm\<close> is called, and \<open>confirmed\<close> read, only when some
  stage-2 item has no temperature.
\<close>

definition moveToStage3 :: "bool \<Rightarrow> AppState \<Rightarrow> Dialog list \<times> AppState" where
  "moveToStage3 confirmed s =
     (let incomplete = list_ex (\<lambda>i. stage i = Stage2 \<and> \<not> truthy (temperature i)) (queue s);
          asked =
            (if incomplete
             then [Confirm ''Some images don't have a temperature value yet. Proceed anyway?'']
             else [])
      in if incomplete \<and> \<not> confirmed then (asked, s)
         else (asked,
               s\<lparr>queue :=
                    map (\<lambda>item. if stage item = Stage2 then item\<lparr>stage := Stage3\<rparr> else item)
                        (queue s)\<rparr>))"

definition updateTemperature :: "string \<Rightarrow> string \<Rightarrow> AppState \<Rightarrow> AppState" where
  "updateTemperature i v s =
     s\<lparr>queue :=
          map (\<lambda>item.
                 if item_id item = i
                 then item\<lparr>temperature := Some v, status := (if v \<noteq> [] then Success else Idle)\<rparr>
                 else item)
              (queue s)\<rparr>"

definition removeItem :: "string \<Rightarrow> AppState \<Rightarrow> AppState" where
  "removeItem i s = s\<lparr>queue := filter (\<lambda>item. item_id item \<noteq> i) (queue s)\<rparr>"

section \<open>The component as a transition system\<close>

text \<open>
  Every way the user changes the state: the four configuration inputs and the five
  handlers. \<open>SetStartIndex\<close> carries what \<open>parseInt\<close> returned.
\<close>

datatype Event =
    SetPrefix string
  | SetStartIndex JSNumber
  | SetFilterSuffix string
  | SetOnlyFilter bool
  | ProcessFiles "nat \<Rightarrow> string" "File list"
  | MoveToStage2 bool
  | MoveToStage3 bool
  | UpdateTemperature string string
  | RemoveItem string

fun handle :: "Event \<Rightarrow> AppState \<Rightarrow> Dialog list \<times> AppState" where
  "handle (SetPrefix p) s = ([], s\<lparr>prefix := p\<rparr>)"
| "handle (SetStartIndex n) s = ([], s\<lparr>startIndex := n\<rparr>)"
| "handle (SetFilterSuffix x) s = ([], s\<lparr>filterSuffix := x\<rparr>)"
| "handle (SetOnlyFilter b) s = ([], s\<lparr>onlyFilter := b\<rparr>)"
| "handle (ProcessFiles random files) s = processFiles random files s"
| "handle (MoveToStage2 confirmed) s = moveToStage2 confirmed s"
| "handle (MoveToStage3 confirmed) s = moveToStage3 confirmed s"
| "handle (UpdateTemperature i v) s = ([], updateTemperature i v s)"
| "handle (RemoveItem i) s = ([], removeItem i s)"

text \<open>
  The dependency array of the effect, \<open>[prefix, startIndex, queue.length]\<close>: after the
  render that follows a handler, the effect runs when one of the three has changed.
\<close>

definition deps :: "AppState \<Rightarrow> string \<times> JSNumber \<times> nat" where
  "deps s = (prefix s, startIndex s, length (queue s))"

definition step :: "AppState \<Rightarrow> Event \<Rightarrow> AppState" where
  "step s e =
     (let s' = snd (handle e s)
      in if deps s' \<noteq> deps s then previewEffect s' else s')"

fun run :: "AppState \<Rightarrow> Event list \<Rightarrow> AppState" where
  "run s [] = s"
| "run s (e # es) = run (step s e) es"

text \<open>The initial values of the \<open>useState\<close> cells.\<close>

definition initialState :: AppState where
  "initialState =
     \<lparr>queue = [], prefix = ''01-'', startIndex = Num 1, filterSuffix = ''-1'', onlyFilter = True\<rparr>"

section \<open>Archive assembly (utils/zipUtils.ts)\<close>

text \<open>
  The archive under construction is the sequence of \<open>zip.file(path, data)\<close> calls made
  on it, in call order; the data is a \<open>File\<close> or a string.
\<close>

datatype ZipData = FileData File | TextData string

type_synonym JSZip = "(string \<times> ZipData) list"

definition csvHeader :: string where
  "csvHeader = ''Original Name,New Name,Folder,Temperature'' @ [CHR 0x0A]"

text \<open>The body of \<open>processedFiles.forEach\<close>, threading \<open>zip\<close> (\<open>archive\<close> here) and \<open>csvContent\<close>.\<close>

fun zipLoop :: "FileQueueItem list \<Rightarrow> JSZip \<times> string \<Rightarrow> JSZip \<times> string" where
  "zipLoop [] acc = acc"
| "zipLoop (item # items) (archive, csvContent) =
     (case newName item of
        None \<Rightarrow> zipLoop items (archive, csvContent)
      | Some nn \<Rightarrow>
          if nn = [] then zipLoop items (archive, csvContent)
          else
            (let safeTemp =
                   (case temperature item of
                      None \<Rightarrow> ''N/A''
                    | Some t \<Rightarrow> if t = [] then ''N/A'' else t)
             in zipLoop items
                  (archive @ [(nn, FileData (file item))],
                   csvContent @ [CHR 0x22] @ originalName item @ [CHR 0x22] @ '',''
                     @ [CHR 0x22] @ nn @ [CHR 0x22] @ '',''
                     @ [CHR 0x22] @ folderName item @ [CHR 0x22] @ '',''
                     @ [CHR 0x22] @ safeTemp @ [CHR 0x22] @ [CHR 0x0A])))"

definition generateZipPackage :: "FileQueueItem list \<Rightarrow> JSZip" where
  "generateZipPackage processedFiles =
     (let (archive, csvContent) = zipLoop processedFiles ([], csvHeader)
      in archive @ [(''data_summary.csv'', TextData csvContent)])"

text \<open>\<open>handleDownload\<close>: nothing is assembled when no item is at stage 3.\<close>

definition handleDownload :: "AppState \<Rightarrow> JSZip option" where
  "handleDownload s =
     (let stage3Items = filter (\<lambda>i. stage i = Stage3) (queue s)
      in if length stage3Items = 0 then None else Some (generateZipPackage stage3Items))"

text \<open>
  \<open>renderStage1\<close>, \<open>renderStage2\<close> and \<open>renderStage3\<close> show
  \<open>queue.filter(i => i.stage === k)\<close>, and \<open>handleDownload\<close> packs the same list for
  stage 3.
\<close>

definition stageItems :: "Stage \<Rightarrow> AppState \<Rightarrow> FileQueueItem list" where
  "stageItems k s = filter (\<lambda>i. stage i = k) (queue s)"

section \<open>Specification vocabulary\<close>

text \<open>
  The definitions of this section are not code of the application: they are the words
  in which the properties below are stated.
\<close>

text \<open>The substring after the final \<open>"."\<close> of a string (the whole string when it has none).\<close>

definition afterLastDot :: "string \<Rightarrow> string" where
  "afterLastDot s = rev (takeWhile (\<lambda>c. c \<noteq> CHR ''.'') (rev s))"

text \<open>
  The name built from a prefix, a sequence number and an original name: the prefix, the
  decimal number left-padded with zeros to three characters, a dot, the extension.
\<close>

definition sequenceName :: "string \<Rightarrow> JSNumber \<Rightarrow> string \<Rightarrow> string" where
  "sequenceName pre n original =
     pre @ replicate (3 - length (numberToString n)) CHR ''0'' @ numberToString n
       @ ''.'' @ getExtension original"

text \<open>The local cursor of the preview pass after \<open>k\<close> executions of \<open>currentSequence++\<close>.\<close>

fun cursorAfter :: "nat \<Rightarrow> JSNumber \<Rightarrow> JSNumber" where
  "cursorAfter 0 x = x"
| "cursorAfter (Suc k) x = cursorAfter k (jsAdd x 1)"

definition isStage1 :: "FileQueueItem \<Rightarrow> bool" where
  "isStage1 item = (stage item = Stage1)"

text \<open>
  Where the item at position \<open>i\<close> of the queue is found after an event: \<open>removeItem\<close>
  deletes the items with the given id and shifts the later ones down, every other
  event leaves the positions of the items already queued alone.
\<close>

fun track :: "AppState \<Rightarrow> Event \<Rightarrow> nat \<Rightarrow> nat option" where
  "track s (RemoveItem rid) i =
     (if item_id (queue s ! i) = rid then None
      else Some (length (filter (\<lambda>item. item_id item \<noteq> rid) (take i (queue s)))))"
| "track s e i = Some i"

fun trackRun :: "AppState \<Rightarrow> Event list \<Rightarrow> nat \<Rightarrow> nat option" where
  "trackRun s [] i = Some i"
| "trackRun s (e # es) i =
     (case track s e i of
        None \<Rightarrow> None
      | Some j \<Rightarrow> trackRun (step s e) es j)"

text \<open>Two records describe the same item: the fields fixed at creation agree.\<close>

definition sameItem :: "FileQueueItem \<Rightarrow> FileQueueItem \<Rightarrow> bool" where
  "sameItem a b =
     (item_id b = item_id a \<and> file b = file a \<and> originalName b = originalName a
      \<and> folderName b = folderName a)"

text \<open>An item past stage 1 stays past stage 1 and keeps its \<open>newName\<close>.\<close>

definition keepsFrozen :: "FileQueueItem \<Rightarrow> FileQueueItem \<Rightarrow> bool" where
  "keepsFrozen a b = (stage a \<noteq> Stage1 \<longrightarrow> stage b \<noteq> Stage1 \<and> newName b = newName a)"

text \<open>
  Archive assembly: an item is eligible when \<open>if (item.newName)\<close> lets it in, a field is
  rendered between double quotes, the annotation field is the temperature or \<open>N/A\<close>,
  and a manifest row is the four fields separated by commas and ended by a line feed.
\<close>

definition eligible :: "FileQueueItem \<Rightarrow> bool" where
  "eligible item = truthy (newName item)"

definition quoted :: "string \<Rightarrow> string" where
  "quoted s = [CHR 0x22] @ s @ [CHR 0x22]"

definition annotationField :: "FileQueueItem \<Rightarrow> string" where
  "annotationField item = (if truthy (temperature item) then the (temperature item) else ''N/A'')"

definition csvRow :: "FileQueueItem \<Rightarrow> string" where
  "csvRow item =
     quoted (originalName item) @ '','' @ quoted (the (newName item)) @ '',''
       @ quoted (folderName item) @ '','' @ quoted (annotationField item) @ [CHR 0x0A]"

text \<open>
  Ingestion: the group label of a file is the folder name \<open>processFiles\<close> gives its
  item, and a file is accepted when it is an image file and, with the folder filter on,
  its group label ends with the filter suffix.
\<close>

definition groupLabel :: "File \<Rightarrow> string" where
  "groupLabel f = folderName (makeItem [] f)"

definition accepted :: "AppState \<Rightarrow> File \<Rightarrow> bool" where
  "accepted s f =
     (isImageFile f \<and> (onlyFilter s \<longrightarrow> (\<exists>p. groupLabel f = p @ filterSuffix s)))"

text \<open>
  The id generator is fresh at an event when the ids it yields during the event, one
  per image file, are pairwise distinct and none is the id of a queued item.
\<close>

fun idsFresh :: "AppState \<Rightarrow> Event \<Rightarrow> bool" where
  "idsFresh s (ProcessFiles random files) =
     (let ids = map random [0..<length (filter isImageFile files)]
      in distinct ids \<and> set ids \<inter> set (map item_id (queue s)) = {})"
| "idsFresh s e = True"

fun idsFreshRun :: "AppState \<Rightarrow> Event list \<Rightarrow> bool" where
  "idsFreshRun s [] = True"
| "idsFreshRun s (e # es) = (idsFresh s e \<and> idsFreshRun (step s e) es)"

text \<open>The sequence number as it appears in a name: padded with zeros to three characters.\<close>

definition paddedSequence :: "JSNumber \<Rightarrow> string" where
  "paddedSequence n = replicate (3 - length (numberToString n)) CHR ''0'' @ numberToString n"

text \<open>
  The previews are current: a run of the preview pass would change nothing. This is the
  state in which the user finds the queue whenever a handler can run.
\<close>

definition previewsCurrent :: "AppState \<Rightarrow> bool" where
  "previewsCurrent s = (previewLoop (prefix s) (startIndex s) (queue s) = queue s)"

text \<open>Example data for the concrete instances below.\<close>

definition exampleFile :: "string \<Rightarrow> string \<Rightarrow> File" where
  "exampleFile n path = \<lparr>name = n, type = [], webkitRelativePath = path, content = []\<rparr>"

definition exampleIds :: "string \<Rightarrow> nat \<Rightarrow> string" where
  "exampleIds tag k = tag @ intToString (int k)"

definition exampleItem :: "string \<Rightarrow> string \<Rightarrow> Stage \<Rightarrow> string option \<Rightarrow> FileQueueItem" where
  "exampleItem i n st nn =
     \<lparr>item_id = i, file = exampleFile n n, originalName = n, folderName = ''Root'',
      stage = st, status = Idle, temperature = None, newName = nn, previewName = None\<rparr>"

definition exampleState :: AppState where
  "exampleState =
     \<lparr>queue = [exampleItem ''a'' ''a.jpg'' Stage1 None,
               exampleItem ''b'' ''b.png'' Stage2 (Some ''01-004.png''),
               exampleItem ''c'' ''c'' Stage1 None],
      prefix = ''01-'', startIndex = Num 5, filterSuffix = ''-1'', onlyFilter = True\<rparr>"

definition committedState :: AppState where
  "committedState =
     run initialState
       [ProcessFiles (exampleIds ''a'')
          [exampleFile ''a.jpg'' ''x-1/a.jpg'', exampleFile ''b.png'' ''x-1/b.png''],
        MoveToStage2 True]"

definition laterEvents :: "Event list" where
  "laterEvents =
     [SetPrefix ''zz'', SetStartIndex (Num 40),
      ProcessFiles (exampleIds ''n'') [exampleFile ''c.jpg'' ''y-1/c.jpg''],
      UpdateTemperature ''a1'' ''23.5'', MoveToStage2 True, MoveToStage3 True,
      RemoveItem ''a0'']"

definition exportItems :: "FileQueueItem list" where
  "exportItems =
     [(exampleItem ''a'' ''a.jpg'' Stage3 (Some ''01-001.jpg''))\<lparr>temperature := Some ''23.5''\<rparr>,
      exampleItem ''x'' ''x.jpg'' Stage3 None,
      exampleItem ''b'' ''b.png'' Stage3 (Some ''01-002.png'')]"

definition annotateState :: AppState where
  "annotateState =
     \<lparr>queue = [exampleItem ''a'' ''a.jpg'' Stage1 None,
               (exampleItem ''b'' ''b.png'' Stage2 (Some ''01-001.png''))\<lparr>temperature := Some ''23.5''\<rparr>,
               exampleItem ''c'' ''c.jpg'' Stage2 (Some ''01-002.jpg''),
               exampleItem ''d'' ''d.jpg'' Stage3 (Some ''00-001.jpg'')],
      prefix = ''01-'', startIndex = Num 3, filterSuffix = ''-1'', onlyFilter = True\<rparr>"

definition siteFiles :: "File list" where
  "siteFiles =
     [exampleFile ''a.jpg'' ''siteA-1/a.jpg'', exampleFile ''b.jpg'' ''siteA-2/b.jpg'',
      exampleFile ''c.jpg'' ''siteB-1/c.jpg'', exampleFile ''notes.txt'' ''siteB-1/notes.txt'']"

definition orderEvents :: "Event list" where
  "orderEvents = [RemoveItem ''b'', SetPrefix ''x'', MoveToStage2 True]"

definition constantIds :: "nat \<Rightarrow> string" where
  "constantIds k = ''k3j9x2m1q''"

definition nanEvents :: "Event list" where
  "nanEvents =
     [SetStartIndex NaN,
      ProcessFiles (exampleIds ''a'')
        [exampleFile ''a.jpg'' ''x-1/a.jpg'', exampleFile ''b.jpg'' ''x-1/b.jpg''],
      MoveToStage2 True]"

definition batchOne :: "File list" where
  "batchOne =
     [exampleFile ''a.jpg'' ''x-1/a.jpg'', exampleFile ''b.png'' ''x-1/b.png'',
      exampleFile ''c.webp'' ''x-1/c.webp'']"

definition batchTwo :: "File list" where
  "batchTwo = [exampleFile ''d.jpg'' ''y-1/d.jpg'', exampleFile ''e.png'' ''y-1/e.png'']"

definition startFive :: AppState where
  "startFive = step initialState (SetStartIndex (Num 5))"

definition precisionEvents :: "Event list" where
  "precisionEvents =
     [SetStartIndex (Num 9007199254740992),
      ProcessFiles (exampleIds ''a'') [exampleFile ''a.jpg'' ''x-1/a.jpg''],
      MoveToStage2 True,
      ProcessFiles (exampleIds ''b'') [exampleFile ''b.jpg'' ''x-1/b.jpg''],
      MoveToStage2 True]"

section \<open>List lemmas\<close>

lemma length_takeWhile_lt:
  "x \<in> set xs \<Longrightarrow> \<not> P x \<Longrightarrow> length (takeWhile P xs) < length xs"
  by (induction xs) auto

lemma drop_rev_takeWhile:
  "drop (length s - length (takeWhile P (rev s))) s = rev (takeWhile P (rev s))"
proof -
  have "rev (takeWhile P (rev s)) = rev (take (length (takeWhile P (rev s))) (rev s))"
    by (simp add: takeWhile_eq_take[symmetric])
  also have "\<dots> = drop (length s - length (takeWhile P (rev s))) s"
    by (simp add: rev_take)
  finally show ?thesis by simp
qed

lemma takeWhile_rev_tl_less:
  assumes "c \<in> set (tl s)"
  shows "length (takeWhile (\<lambda>x. x \<noteq> c) (rev s)) < length s - 1"
proof (cases s)
  case Nil
  with assms show ?thesis by simp
next
  case (Cons a t)
  with assms have ct: "c \<in> set (rev t)" by simp
  then have "takeWhile (\<lambda>x. x \<noteq> c) (rev t @ [a]) = takeWhile (\<lambda>x. x \<noteq> c) (rev t)"
    by simp
  moreover have "length (takeWhile (\<lambda>x. x \<noteq> c) (rev t)) < length (rev t)"
    using ct by (rule length_takeWhile_lt) simp
  ultimately show ?thesis using Cons by simp
qed

lemma takeWhile_rev_tl_ge:
  assumes "c \<notin> set (tl s)"
  shows "length s - 1 \<le> length (takeWhile (\<lambda>x. x \<noteq> c) (rev s))"
proof (cases s)
  case Nil
  then show ?thesis by simp
next
  case (Cons a t)
  with assms have "\<And>x. x \<in> set (rev t) \<Longrightarrow> x \<noteq> c" by auto
  then have "length (takeWhile (\<lambda>x. x \<noteq> c) (rev t @ [a])) =
             length (rev t @ takeWhile (\<lambda>x. x \<noteq> c) [a])"
    by (subst takeWhile_append2) auto
  then show ?thesis using Cons by simp
qed

lemma filter_take_nth:
  assumes "i < length q" and "P (q ! i)"
  shows "length (filter P (take i q)) < length (filter P q)"
    and "filter P q ! length (filter P (take i q)) = q ! i"
proof -
  have "q = take i q @ q ! i # drop (Suc i) q"
    using assms(1) by (simp add: id_take_nth_drop)
  then have "filter P q = filter P (take i q) @ filter P (q ! i # drop (Suc i) q)"
    by (metis filter_append)
  then have eq: "filter P q = filter P (take i q) @ q ! i # filter P (drop (Suc i) q)"
    using assms(2) by simp
  from eq have "length (filter P q) =
      length (filter P (take i q) @ q ! i # filter P (drop (Suc i) q))"
    by (rule arg_cong)
  then show "length (filter P (take i q)) < length (filter P q)"
    by simp
  from eq have "filter P q ! length (filter P (take i q)) =
      (filter P (take i q) @ q ! i # filter P (drop (Suc i) q)) ! length (filter P (take i q))"
    by (rule arg_cong[where f = "\<lambda>xs. xs ! length (filter P (take i q))"])
  then show "filter P q ! length (filter P (take i q)) = q ! i"
    by simp
qed

lemma filter_take_mono:
  assumes "i < j" and "j \<le> length q" and "P (q ! i)"
  shows "length (filter P (take i q)) < length (filter P (take j q))"
proof -
  have "i < length (take j q)" using assms by simp
  moreover have "P (take j q ! i)" using assms by simp
  ultimately have "length (filter P (take i (take j q))) < length (filter P (take j q))"
    by (rule filter_take_nth(1))
  moreover have "take i (take j q) = take i q" using assms by (simp add: min_def)
  ultimately show ?thesis by simp
qed

lemma replicate_numeral: "replicate (numeral k) x = x # replicate (pred_numeral k) x"
  by (simp add: numeral_eq_Suc)

section \<open>Numbers in the exact range\<close>

lemma bitLength_eq:
  "2 ^ k \<le> n \<Longrightarrow> n < 2 ^ Suc k \<Longrightarrow> bitLength n = Suc k"
proof (induction k arbitrary: n)
  case 0
  then have "n = 1" by simp
  then show ?case by (simp add: bitLength.simps)
next
  case (Suc k)
  from Suc.prems have "2 ^ k \<le> n div 2" "n div 2 < 2 ^ Suc k" by auto
  from Suc.IH[OF this] have "bitLength (n div 2) = Suc k" .
  moreover from Suc.prems have "n \<noteq> 0" by auto
  ultimately show ?case by (subst bitLength.simps) simp
qed

lemma roundDouble_small: "\<bar>m\<bar> \<le> 2 ^ 53 \<Longrightarrow> roundDouble m = m"
  by (simp add: roundDouble_def)

lemma toNumber_small:
  assumes "\<bar>m\<bar> \<le> 2 ^ 53"
  shows "toNumber m = Num m"
proof -
  have "(2::int) ^ 53 < 2 ^ 1024" by (rule power_strict_increasing) simp_all
  with assms have "\<not> 2 ^ 1024 \<le> m" and "\<not> m \<le> - (2 ^ 1024)" by arith+
  then show ?thesis
    by (simp only: toNumber_def Let_def roundDouble_small[OF assms] if_False)
qed

lemma jsAdd_safe: "\<bar>n + k\<bar> \<le> 2 ^ 53 \<Longrightarrow> jsAdd (Num n) k = Num (n + k)"
  by (simp add: toNumber_small)

lemma numberToString_safe: "\<bar>n\<bar> \<le> 2 ^ 53 \<Longrightarrow> numberToString (Num n) = intToString n"
  by (simp add: roundDouble_small)

lemma cursorAfter_Suc_right: "cursorAfter (Suc k) x = jsAdd (cursorAfter k x) 1"
  by (induction k arbitrary: x) simp_all

lemma cursorAfter_safe:
  "\<bar>n\<bar> \<le> 2 ^ 53 \<Longrightarrow> \<bar>n + int k\<bar> \<le> 2 ^ 53 \<Longrightarrow> cursorAfter k (Num n) = Num (n + int k)"
proof (induction k arbitrary: n)
  case 0
  then show ?case by simp
next
  case (Suc k)
  from Suc.prems have one: "\<bar>n + 1\<bar> \<le> 2 ^ 53" by arith
  from Suc.prems have rest: "\<bar>n + 1 + int k\<bar> \<le> 2 ^ 53" by arith
  have "cursorAfter (Suc k) (Num n) = cursorAfter k (Num (n + 1))"
    using one by (simp add: jsAdd_safe del: jsAdd.simps)
  also have "\<dots> = Num (n + 1 + int k)"
    using one rest by (rule Suc.IH)
  finally show ?case by (simp add: add.assoc add.commute)
qed

lemma cursorAfter_within:
  assumes "\<bar>n\<bar> \<le> 2 ^ 53" and "\<bar>n + int m\<bar> \<le> 2 ^ 53" and "k \<le> m"
  shows "cursorAfter k (Num n) = Num (n + int k)" and "\<bar>n + int k\<bar> \<le> 2 ^ 53"
proof -
  from assms show b: "\<bar>n + int k\<bar> \<le> 2 ^ 53" by arith
  from assms(1) b show "cursorAfter k (Num n) = Num (n + int k)" by (rule cursorAfter_safe)
qed

lemma filter_take_le: "length (filter P (take j xs)) \<le> length (filter P xs)"
proof -
  have "filter P xs = filter P (take j xs) @ filter P (drop j xs)"
    by (simp only: filter_append[symmetric] append_take_drop_id)
  then show ?thesis by simp
qed

lemma cursorAfter_NaN: "cursorAfter k NaN = NaN"
  by (induction k) simp_all

lemma rounding_at_two_to_53: "jsAdd (Num 9007199254740992) 1 = Num 9007199254740992"
proof -
  have "bitLength 9007199254740993 = Suc 53"
    by (rule bitLength_eq) simp_all
  then have "roundDouble 9007199254740993 = 9007199254740992"
    by (simp add: roundDouble_def Let_def)
  then show ?thesis by (simp add: toNumber_def Let_def)
qed

section \<open>Evaluation\<close>

lemmas eval_defs = exampleFile_def exampleIds_def step_def deps_def previewEffect_def
  processFiles_def moveToStage2_def moveToStage3_def updateTemperature_def removeItem_def
  makeItem_def isImageFile_def imageNameTest_def validTypes_def endsWith_def toLowerAscii_def
  getExtension_def slice_def lastIndexOf_def toUint32_def padStart_def intToString_def
  digits.simps digitChar_def initialState_def Let_def enumerate_eq_zip roundDouble_small toNumber_small

section \<open>The extension of a file name\<close>

lemma afterLastDot_split:
  assumes "CHR ''.'' \<in> set s"
  shows "\<exists>p. s = p @ ''.'' @ afterLastDot s" and "CHR ''.'' \<notin> set (afterLastDot s)"
proof -
  let ?P = "\<lambda>c. c \<noteq> CHR ''.''"
  from assms have ne: "dropWhile ?P (rev s) \<noteq> []" by (simp add: dropWhile_eq_Nil_conv)
  then have "\<not> ?P (hd (dropWhile ?P (rev s)))" by (rule hd_dropWhile)
  with ne obtain r where r: "dropWhile ?P (rev s) = CHR ''.'' # r"
    by (cases "dropWhile ?P (rev s)") auto
  have "rev s = takeWhile ?P (rev s) @ dropWhile ?P (rev s)" by simp
  then have "rev (rev s) = rev (takeWhile ?P (rev s) @ CHR ''.'' # r)" using r by simp
  then have "s = rev r @ ''.'' @ afterLastDot s" by (simp add: afterLastDot_def)
  then show "\<exists>p. s = p @ ''.'' @ afterLastDot s" ..
  show "CHR ''.'' \<notin> set (afterLastDot s)"
    using set_takeWhileD[of "CHR ''.''" ?P "rev s"] by (auto simp: afterLastDot_def)
qed

lemma getExtension_cases:
  assumes len: "length filename < 2 ^ 32"
  shows "getExtension filename =
           (if CHR ''.'' \<in> set (tl filename) then afterLastDot filename else [])"
proof (cases "CHR ''.'' \<in> set (tl filename)")
  case True
  let ?k = "length (takeWhile (\<lambda>x. x \<noteq> CHR ''.'') (rev filename))"
  from True have mem: "CHR ''.'' \<in> set filename"
    by (cases filename) auto
  from takeWhile_rev_tl_less[OF True] have k: "?k < length filename - 1" .
  have li: "lastIndexOf filename CHR ''.'' = int (length filename) - 1 - int ?k"
    using mem by (simp add: lastIndexOf_def)
  have rng: "0 \<le> lastIndexOf filename CHR ''.'' - 1" "lastIndexOf filename CHR ''.'' - 1 < 2 ^ 32"
    using k len li by auto
  have "toUint32 (lastIndexOf filename CHR ''.'' - 1) = lastIndexOf filename CHR ''.'' - 1"
    unfolding toUint32_def using rng by simp
  then have "getExtension filename = drop (length filename - ?k) filename"
    using k li by (simp add: getExtension_def slice_def Let_def min_def nat_diff_distrib)
  with True show ?thesis
    by (simp add: afterLastDot_def drop_rev_takeWhile)
next
  case False
  show ?thesis
  proof (cases "CHR ''.'' \<in> set filename")
    case True
    let ?k = "length (takeWhile (\<lambda>x. x \<noteq> CHR ''.'') (rev filename))"
    have "?k < length filename"
      using length_takeWhile_lt[of "CHR ''.''" "rev filename" "\<lambda>x. x \<noteq> CHR ''.''"] True
      by simp
    then have li: "lastIndexOf filename CHR ''.'' = 0"
      using takeWhile_rev_tl_ge[OF False] True by (simp add: lastIndexOf_def)
    have "toUint32 (- 1) = 2 ^ 32 - 1" by (simp add: toUint32_def)
    then show ?thesis using False len li
      by (simp add: getExtension_def slice_def Let_def min_def)
  next
    case nodot: False
    have "toUint32 (- 2) = 2 ^ 32 - 2" by (simp add: toUint32_def)
    then show ?thesis using False len nodot
      by (simp add: getExtension_def slice_def Let_def min_def lastIndexOf_def)
  qed
qed

text \<open>
  C4. For every file name of fewer than \<open>2^32\<close> characters (every string a JavaScript
  engine holds), \<open>getExtension\<close> returns the substring after the final dot, with the two
  exceptions the specification names: a name without a dot has the empty extension, and so
  has a name whose only dot is the leading one, as \<open>.gitignore\<close>. The function has no
  failing branch: every name has an extension.
\<close>

theorem getExtension_after_final_dot:
  assumes len: "length filename < 2 ^ 32"
  shows "getExtension filename =
           (if CHR ''.'' \<in> set (tl filename) then afterLastDot filename else [])"
  using len by (rule getExtension_cases)

theorem getExtension_after_final_dot_witness:
  "length ''scan.v2.JPG'' < 2 ^ 32 \<and> getExtension ''scan.v2.JPG'' = ''JPG''
   \<and> length ''README'' < 2 ^ 32 \<and> getExtension ''README'' = []
   \<and> length ''.gitignore'' < 2 ^ 32 \<and> getExtension ''.gitignore'' = []"
proof -
  have h: "length ''scan.v2.JPG'' < 2 ^ 32" "length ''README'' < 2 ^ 32"
    "length ''.gitignore'' < 2 ^ 32" by simp_all
  from getExtension_after_final_dot[OF h(1)] have a: "getExtension ''scan.v2.JPG'' = ''JPG''"
    by (simp add: afterLastDot_def)
  from getExtension_after_final_dot[OF h(2)] have b: "getExtension ''README'' = []"
    by simp
  from getExtension_after_final_dot[OF h(3)] have c: "getExtension ''.gitignore'' = []"
    by simp
  from h a b c show ?thesis by simp
qed
section \<open>The preview pass\<close>

lemma concat_replicate_single: "concat (replicate k [c]) = replicate k c"
  by (induction k) auto

lemma padStart_zero: "padStart str 3 ''0'' = replicate (3 - length str) CHR ''0'' @ str"
  by (simp add: padStart_def Let_def concat_replicate_single)

lemma previewLoop_Cons:
  "previewLoop pre n (item # items) =
     (if stage item = Stage1
      then item\<lparr>previewName := Some (sequenceName pre n (originalName item))\<rparr>
             # previewLoop pre (jsAdd n 1) items
      else item # previewLoop pre n items)"
  by (simp add: Let_def padStart_zero sequenceName_def)

lemma length_previewLoop [simp]: "length (previewLoop pre n q) = length q"
  by (induction q arbitrary: n) (simp_all add: Let_def)

lemma previewLoop_nth:
  "i < length q \<Longrightarrow>
   previewLoop pre n q ! i =
     (if stage (q ! i) = Stage1
      then (q ! i)\<lparr>previewName :=
             Some (sequenceName pre (cursorAfter (length (filter isStage1 (take i q))) n)
                     (originalName (q ! i)))\<rparr>
      else q ! i)"
proof (induction q arbitrary: n i)
  case Nil
  then show ?case by simp
next
  case (Cons item items)
  show ?case
  proof (cases i)
    case 0
    then show ?thesis by (simp add: previewLoop_Cons del: previewLoop.simps(2))
  next
    case (Suc k)
    with Cons.prems have k: "k < length items" by simp
    show ?thesis
      using Cons.IH[OF k] Suc
      by (simp add: previewLoop_Cons isStage1_def del: previewLoop.simps(2) jsAdd.simps)
  qed
qed

lemma previewLoop_idem: "previewLoop pre n (previewLoop pre n q) = previewLoop pre n q"
  by (induction q arbitrary: n) (simp_all add: previewLoop_Cons del: previewLoop.simps(2))


lemma previewLoop_other:
  "filter (\<lambda>it. \<not> isStage1 it) (previewLoop pre n q) = filter (\<lambda>it. \<not> isStage1 it) q"
  by (induction q arbitrary: n) (simp_all add: previewLoop_Cons isStage1_def del: previewLoop.simps(2))

lemma previewLoop_no_stage1:
  "\<forall>it\<in>set q. stage it \<noteq> Stage1 \<Longrightarrow> previewLoop pre n q = q"
  by (induction q arbitrary: n) (simp_all add: previewLoop_Cons del: previewLoop.simps(2))

lemma previewLoop_names:
  "\<forall>it\<in>set q. stage it = Stage1 \<Longrightarrow>
   map previewName (previewLoop pre (cursorAfter k n) q) =
     map (\<lambda>(j, it). Some (sequenceName pre (cursorAfter j n) (originalName it))) (enumerate k q)"
proof (induction q arbitrary: k)
  case Nil
  then show ?case by simp
next
  case (Cons item items)
  have e: "jsAdd (cursorAfter k n) 1 = cursorAfter (Suc k) n" by (simp only: cursorAfter_Suc_right)
  from Cons.prems have "\<forall>it\<in>set items. stage it = Stage1" by simp
  from Cons.IH[OF this, of "Suc k"] Cons.prems show ?case
    unfolding previewLoop_Cons e by simp
qed




section \<open>Items across events\<close>

lemma previewLoop_nth_field:
  assumes "j < length q" and "\<And>it v. f (it\<lparr>previewName := v\<rparr>) = f it"
  shows "f (previewLoop pre n q ! j) = f (q ! j)"
  using assms by (simp add: previewLoop_nth)

lemma step_queue_cases:
  "queue (step s e) = queue (snd (handle e s)) \<or>
   queue (step s e) =
     previewLoop (prefix (snd (handle e s))) (startIndex (snd (handle e s)))
       (queue (snd (handle e s)))"
  by (simp add: step_def Let_def previewEffect_def)

lemma step_nth_field:
  assumes "j < length (queue (snd (handle e s)))" and "\<And>it v. f (it\<lparr>previewName := v\<rparr>) = f it"
  shows "f (queue (step s e) ! j) = f (queue (snd (handle e s)) ! j)"
  using step_queue_cases[of s e] previewLoop_nth_field[OF assms] by auto

lemma length_step: "length (queue (step s e)) = length (queue (snd (handle e s)))"
  using step_queue_cases[of s e] by auto

lemma handle_track:
  assumes "i < length (queue s)" and "track s e i = Some j"
  shows "j < length (queue (snd (handle e s)))
         \<and> sameItem (queue s ! i) (queue (snd (handle e s)) ! j)
         \<and> keepsFrozen (queue s ! i) (queue (snd (handle e s)) ! j)"
proof (cases e)
  case (RemoveItem rid)
  let ?P = "\<lambda>item. item_id item \<noteq> rid"
  from assms RemoveItem have P: "?P (queue s ! i)"
    and j: "j = length (filter ?P (take i (queue s)))"
    by (auto split: if_splits)
  from filter_take_nth[OF assms(1), of ?P, OF P] j
  have "j < length (filter ?P (queue s))" and "filter ?P (queue s) ! j = queue s ! i"
    by simp_all
  then show ?thesis using RemoveItem
    by (simp add: removeItem_def sameItem_def keepsFrozen_def)
next
  case (ProcessFiles random files)
  with assms show ?thesis
    by (auto simp: processFiles_def Let_def nth_append sameItem_def keepsFrozen_def)
next
  case (MoveToStage2 c)
  with assms show ?thesis
    by (auto simp: moveToStage2_def Let_def sameItem_def keepsFrozen_def)
next
  case (MoveToStage3 c)
  with assms show ?thesis
    by (auto simp: moveToStage3_def Let_def sameItem_def keepsFrozen_def)
next
  case (UpdateTemperature x v)
  with assms show ?thesis
    by (auto simp: updateTemperature_def sameItem_def keepsFrozen_def)
qed (use assms in \<open>auto simp: sameItem_def keepsFrozen_def\<close>)

lemma step_track:
  assumes "i < length (queue s)" and "track s e i = Some j"
  shows "j < length (queue (step s e))
         \<and> sameItem (queue s ! i) (queue (step s e) ! j)
         \<and> keepsFrozen (queue s ! i) (queue (step s e) ! j)"
proof -
  let ?q1 = "queue (snd (handle e s))"
  from handle_track[OF assms]
  have j: "j < length ?q1" and s1: "sameItem (queue s ! i) (?q1 ! j)"
    and k1: "keepsFrozen (queue s ! i) (?q1 ! j)"
    by simp_all
  have "item_id (queue (step s e) ! j) = item_id (?q1 ! j)"
    "file (queue (step s e) ! j) = file (?q1 ! j)"
    "originalName (queue (step s e) ! j) = originalName (?q1 ! j)"
    "folderName (queue (step s e) ! j) = folderName (?q1 ! j)"
    "stage (queue (step s e) ! j) = stage (?q1 ! j)"
    "newName (queue (step s e) ! j) = newName (?q1 ! j)"
    by (rule step_nth_field[OF j], simp)+
  with j s1 k1 show ?thesis
    by (simp add: length_step sameItem_def keepsFrozen_def)
qed

lemma sameItem_trans: "sameItem a b \<Longrightarrow> sameItem b c \<Longrightarrow> sameItem a c"
  by (simp add: sameItem_def)

lemma keepsFrozen_trans: "keepsFrozen a b \<Longrightarrow> keepsFrozen b c \<Longrightarrow> keepsFrozen a c"
  by (auto simp: keepsFrozen_def)

lemma run_track:
  "i < length (queue s) \<Longrightarrow> trackRun s es i = Some j \<Longrightarrow>
   j < length (queue (run s es))
   \<and> sameItem (queue s ! i) (queue (run s es) ! j)
   \<and> keepsFrozen (queue s ! i) (queue (run s es) ! j)"
proof (induction es arbitrary: s i)
  case Nil
  then show ?case by (simp add: sameItem_def keepsFrozen_def)
next
  case (Cons e es)
  from Cons.prems(2) obtain k where k: "track s e i = Some k" and r: "trackRun (step s e) es k = Some j"
    by (auto split: option.splits)
  from step_track[OF Cons.prems(1) k]
  have k1: "k < length (queue (step s e))"
    and k2: "sameItem (queue s ! i) (queue (step s e) ! k)"
    and k3: "keepsFrozen (queue s ! i) (queue (step s e) ! k)"
    by simp_all
  from Cons.IH[OF k1 r] k2 k3 show ?case
    by (auto intro: sameItem_trans keepsFrozen_trans)
qed

lemma track_None: "track s e i = None \<Longrightarrow> e = RemoveItem (item_id (queue s ! i))"
  by (cases e) (auto split: if_splits)

lemma trackRun_None:
  "i < length (queue s) \<Longrightarrow> trackRun s es i = None \<Longrightarrow>
   RemoveItem (item_id (queue s ! i)) \<in> set es"
proof (induction es arbitrary: s i)
  case Nil
  then show ?case by simp
next
  case (Cons e es)
  show ?case
  proof (cases "track s e i")
    case None
    then show ?thesis using track_None[OF None] by simp
  next
    case (Some k)
    with Cons.prems(2) have r: "trackRun (step s e) es k = None" by simp
    from step_track[OF Cons.prems(1) Some]
    have k1: "k < length (queue (step s e))"
      and k2: "item_id (queue (step s e) ! k) = item_id (queue s ! i)"
      by (simp_all add: sameItem_def)
    from Cons.IH[OF k1 r] k2 show ?thesis by simp
  qed
qed

section \<open>Ingestion\<close>

lemma endsWith_iff: "endsWith s suf \<longleftrightarrow> (\<exists>p. s = p @ suf)"
proof
  assume e: "endsWith s suf"
  then have "s = take (length s - length suf) s @ suf"
    by (metis append_take_drop_id endsWith_def)
  then show "\<exists>p. s = p @ suf" ..
next
  assume "\<exists>p. s = p @ suf"
  then show "endsWith s suf" by (auto simp: endsWith_def)
qed

lemma folderName_makeItem: "folderName (makeItem rid f) = groupLabel f"
  by (simp add: makeItem_def groupLabel_def Let_def)

lemma map_snd_filter_enumerate:
  "map snd (filter (\<lambda>(k, f). Q f) (enumerate n xs)) = filter Q xs"
  by (induction xs arbitrary: n) auto

lemma processFiles_queue:
  "queue (snd (processFiles random files s)) =
     queue s @ map (\<lambda>(k, f). makeItem (random k) f)
                 (filter (\<lambda>(k, f). onlyFilter s \<longrightarrow> endsWith (groupLabel f) (filterSuffix s))
                    (enumerate 0 (filter isImageFile files)))"
  by (auto simp: processFiles_def Let_def filter_map comp_def folderName_makeItem
        split_def)

lemma processFiles_files:
  "map file (queue (snd (processFiles random files s))) =
     map file (queue s) @ filter (accepted s) files"
proof -
  let ?Q = "\<lambda>f. onlyFilter s \<longrightarrow> endsWith (groupLabel f) (filterSuffix s)"
  have "map file (map (\<lambda>(k, f). makeItem (random k) f)
          (filter (\<lambda>(k, f). ?Q f) (enumerate 0 (filter isImageFile files))))
        = map snd (filter (\<lambda>(k, f). ?Q f) (enumerate 0 (filter isImageFile files)))"
    by (simp add: split_def makeItem_def Let_def)
  also have "\<dots> = filter ?Q (filter isImageFile files)"
    by (rule map_snd_filter_enumerate)
  also have "\<dots> = filter (accepted s) files"
    by (simp add: accepted_def[abs_def] endsWith_iff conj_commute)
  finally show ?thesis by (simp add: processFiles_queue)
qed

lemma previewLoop_map_field:
  assumes "\<And>it v. f (it\<lparr>previewName := v\<rparr>) = f it"
  shows "map f (previewLoop pre n q) = map f q"
  by (induction q arbitrary: n) (simp_all add: previewLoop_Cons assms del: previewLoop.simps(2))

lemma step_map_field:
  assumes "\<And>it v. f (it\<lparr>previewName := v\<rparr>) = f it"
  shows "map f (queue (step s e)) = map f (queue (snd (handle e s)))"
  using step_queue_cases[of s e] previewLoop_map_field[of f, OF assms] by auto

lemma step_ingest_files:
  "map file (queue (step s (ProcessFiles random files))) =
     map file (queue s) @ filter (accepted s) files"
proof -
  have "map file (queue (step s (ProcessFiles random files))) =
        map file (queue (snd (handle (ProcessFiles random files) s)))"
    by (rule step_map_field) simp
  then show ?thesis by (simp add: processFiles_files)
qed

lemma step_ingest_folders:
  "map folderName (queue (step s (ProcessFiles random files))) =
     map folderName (queue s) @ map groupLabel (filter (accepted s) files)"
proof -
  let ?Q = "\<lambda>f. onlyFilter s \<longrightarrow> endsWith (groupLabel f) (filterSuffix s)"
  have "map folderName (queue (step s (ProcessFiles random files))) =
        map folderName (queue (snd (handle (ProcessFiles random files) s)))"
    by (rule step_map_field) simp
  moreover have "map folderName (map (\<lambda>(k, f). makeItem (random k) f)
          (filter (\<lambda>(k, f). ?Q f) (enumerate 0 (filter isImageFile files))))
        = map groupLabel (map snd (filter (\<lambda>(k, f). ?Q f) (enumerate 0 (filter isImageFile files))))"
    by (simp add: split_def folderName_makeItem)
  moreover have "map snd (filter (\<lambda>(k, f). ?Q f) (enumerate 0 (filter isImageFile files)))
        = filter ?Q (filter isImageFile files)"
    by (rule map_snd_filter_enumerate)
  moreover have "filter ?Q (filter isImageFile files) = filter (accepted s) files"
    by (simp add: accepted_def[abs_def] endsWith_iff conj_commute)
  ultimately show ?thesis by (simp add: processFiles_queue)
qed

lemma step_ingest_stages:
  "map stage (queue (step s (ProcessFiles random files))) =
     map stage (queue s) @ replicate (length (filter (accepted s) files)) Stage1"
proof -
  let ?Q = "\<lambda>f. onlyFilter s \<longrightarrow> endsWith (groupLabel f) (filterSuffix s)"
  let ?new = "filter (\<lambda>(k, f). ?Q f) (enumerate 0 (filter isImageFile files))"
  have "map stage (queue (step s (ProcessFiles random files))) =
        map stage (queue (snd (handle (ProcessFiles random files) s)))"
    by (rule step_map_field) simp
  moreover have "map stage (map (\<lambda>(k, f). makeItem (random k) f) ?new)
        = replicate (length ?new) Stage1"
    by (simp add: split_def comp_def makeItem_def Let_def map_replicate_const)
  moreover have "length ?new = length (map snd ?new)" by simp
  moreover have "map snd ?new = filter ?Q (filter isImageFile files)"
    by (rule map_snd_filter_enumerate)
  moreover have "filter ?Q (filter isImageFile files) = filter (accepted s) files"
    by (simp add: accepted_def[abs_def] endsWith_iff conj_commute)
  ultimately show ?thesis by (simp add: processFiles_queue)
qed

section \<open>The freeze of the assigned name\<close>

text \<open>
  C2. Take an item that has left stage 1, at position \<open>i\<close> of the queue, and any sequence
  of events: changes of the prefix, the start index or the filter, ingestion of files,
  temperature edits, both stage commits and removals, each followed by the preview pass
  when it is due. Either the sequence removes the items with this item's id, or the
  item is still in the queue afterwards, past stage 1, with the same \<open>newName\<close>. The
  preview pass on its own leaves every item past stage 1 as it is.
\<close>

theorem newName_frozen_after_stage1:
  assumes "i < length (queue s)" and "stage (queue s ! i) \<noteq> Stage1"
  shows "(case trackRun s es i of
            None \<Rightarrow> RemoveItem (item_id (queue s ! i)) \<in> set es
          | Some j \<Rightarrow>
              j < length (queue (run s es)) \<and> sameItem (queue s ! i) (queue (run s es) ! j)
              \<and> stage (queue (run s es) ! j) \<noteq> Stage1
              \<and> newName (queue (run s es) ! j) = newName (queue s ! i))
         \<and> filter (\<lambda>item. \<not> isStage1 item) (queue (previewEffect s)) =
             filter (\<lambda>item. \<not> isStage1 item) (queue s)"
proof -
  have "filter (\<lambda>item. \<not> isStage1 item) (queue (previewEffect s)) =
        filter (\<lambda>item. \<not> isStage1 item) (queue s)"
    by (simp add: previewEffect_def previewLoop_other)
  moreover have "case trackRun s es i of
            None \<Rightarrow> RemoveItem (item_id (queue s ! i)) \<in> set es
          | Some j \<Rightarrow>
              j < length (queue (run s es)) \<and> sameItem (queue s ! i) (queue (run s es) ! j)
              \<and> stage (queue (run s es) ! j) \<noteq> Stage1
              \<and> newName (queue (run s es) ! j) = newName (queue s ! i)"
  proof (cases "trackRun s es i")
    case None
    with trackRun_None[OF assms(1) None] show ?thesis by simp
  next
    case (Some j)
    from run_track[OF assms(1) Some] assms(2) Some show ?thesis
      by (simp add: keepsFrozen_def)
  qed
  ultimately show ?thesis by simp
qed

theorem newName_frozen_after_stage1_witness:
  "trackRun committedState laterEvents 1 = Some 0
   \<and> newName (queue committedState ! 1) = Some ''01-002.png''
   \<and> newName (queue (run committedState laterEvents) ! 0) = Some ''01-002.png''"
proof -
  have h1: "1 < length (queue committedState)"
    by (simp add: committedState_def eval_defs)
  have h2: "stage (queue committedState ! 1) \<noteq> Stage1"
    by (simp add: committedState_def eval_defs)
  have t: "trackRun committedState laterEvents 1 = Some 0"
    by (simp add: committedState_def laterEvents_def eval_defs)
  have n: "newName (queue committedState ! 1) = Some ''01-002.png''"
    by (simp add: committedState_def eval_defs replicate_numeral)
  from newName_frozen_after_stage1[OF h1 h2, of laterEvents, unfolded t]
  have "newName (queue (run committedState laterEvents) ! 0) = newName (queue committedState ! 1)"
    by simp
  with t n show ?thesis by simp
qed

section \<open>Archive assembly\<close>

lemma zipLoop_acc:
  "zipLoop items (archive, csv) =
     (archive @ map (\<lambda>item. (the (newName item), FileData (file item))) (filter eligible items),
      csv @ concat (map csvRow (filter eligible items)))"
proof (induction items arbitrary: archive csv)
  case Nil
  then show ?case by simp
next
  case (Cons item items)
  show ?case
  proof (cases "newName item")
    case None
    then show ?thesis using Cons.IH by (simp add: eligible_def)
  next
    case (Some nn)
    show ?thesis
    proof (cases "nn = []")
      case True
      with Some show ?thesis using Cons.IH by (simp add: eligible_def)
    next
      case False
      with Some show ?thesis
        by (cases "temperature item")
           (simp_all add: Cons.IH eligible_def csvRow_def quoted_def annotationField_def)
    qed
  qed
qed

text \<open>
  C5. \<open>generateZipPackage\<close> makes one \<open>zip.file\<close> call per eligible item, in item order,
  with the item's \<open>newName\<close> as the path and its file as the data, and then one call
  that stores the manifest under \<open>data_summary.csv\<close>. The manifest is the header line
  followed by one row per eligible item, in the same order; a row is the four quoted
  fields original name, new name, folder and temperature, with \<open>N/A\<close> for a missing
  temperature, and ends with a line feed. An item without a \<open>newName\<close> contributes
  neither a call nor a row.
\<close>

theorem generateZipPackage_entries_and_manifest:
  "generateZipPackage items =
     map (\<lambda>item. (the (newName item), FileData (file item))) (filter eligible items)
     @ [(''data_summary.csv'',
         TextData (''Original Name,New Name,Folder,Temperature'' @ [CHR 0x0A]
                   @ concat (map csvRow (filter eligible items))))]"
  by (simp add: generateZipPackage_def zipLoop_acc csvHeader_def)

theorem generateZipPackage_entries_and_manifest_witness:
  "generateZipPackage exportItems =
     [(''01-001.jpg'', FileData (exampleFile ''a.jpg'' ''a.jpg'')),
      (''01-002.png'', FileData (exampleFile ''b.png'' ''b.png'')),
      (''data_summary.csv'',
       TextData (''Original Name,New Name,Folder,Temperature'' @ [CHR 0x0A]
         @ [CHR 0x22] @ ''a.jpg'' @ [CHR 0x22] @ '','' @ [CHR 0x22] @ ''01-001.jpg'' @ [CHR 0x22] @ '',''
         @ [CHR 0x22] @ ''Root'' @ [CHR 0x22] @ '','' @ [CHR 0x22] @ ''23.5'' @ [CHR 0x22] @ [CHR 0x0A]
         @ [CHR 0x22] @ ''b.png'' @ [CHR 0x22] @ '','' @ [CHR 0x22] @ ''01-002.png'' @ [CHR 0x22] @ '',''
         @ [CHR 0x22] @ ''Root'' @ [CHR 0x22] @ '','' @ [CHR 0x22] @ ''N/A'' @ [CHR 0x22] @ [CHR 0x0A]))]"
  using generateZipPackage_entries_and_manifest[of exportItems]
  by (simp add: exportItems_def exampleItem_def eligible_def csvRow_def quoted_def annotationField_def)

section \<open>The commit to stage 3\<close>

text \<open>
  C6. \<open>moveToStage3\<close> asks for confirmation exactly when some stage-2 item has no
  temperature, and never fails. When it is not asked, or the answer is yes, every
  stage-2 item moves to stage 3 with its other fields as they were, whether or not it
  has a temperature, and the items at stages 1 and 3 are not changed; no item is left at
  stage 2. When it is asked and the answer is no, the state is unchanged. The preview
  pass is not due after this handler.
\<close>

theorem moveToStage3_all_annotate_items:
  "fst (moveToStage3 confirmed s) =
     (if \<exists>item\<in>set (queue s). stage item = Stage2 \<and> \<not> truthy (temperature item)
      then [Confirm ''Some images don't have a temperature value yet. Proceed anyway?'']
      else [])
   \<and> ((\<exists>item\<in>set (queue s). stage item = Stage2 \<and> \<not> truthy (temperature item)) \<and> \<not> confirmed
        \<longrightarrow> snd (moveToStage3 confirmed s) = s)
   \<and> ((\<forall>item\<in>set (queue s). stage item = Stage2 \<longrightarrow> truthy (temperature item)) \<or> confirmed
        \<longrightarrow> length (queue (snd (moveToStage3 confirmed s))) = length (queue s)
            \<and> (\<forall>i < length (queue s).
                  queue (snd (moveToStage3 confirmed s)) ! i =
                    (if stage (queue s ! i) = Stage2 then (queue s ! i)\<lparr>stage := Stage3\<rparr>
                     else queue s ! i))
            \<and> (\<forall>item\<in>set (queue (snd (moveToStage3 confirmed s))). stage item \<noteq> Stage2)
            \<and> prefix (snd (moveToStage3 confirmed s)) = prefix s
            \<and> startIndex (snd (moveToStage3 confirmed s)) = startIndex s)
   \<and> step s (MoveToStage3 confirmed) = snd (moveToStage3 confirmed s)"
  by (auto simp: moveToStage3_def Let_def list_ex_iff step_def deps_def)

theorem moveToStage3_all_annotate_items_witness:
  "map stage (queue (snd (moveToStage3 True annotateState))) = [Stage1, Stage3, Stage3, Stage3]
   \<and> fst (moveToStage3 True annotateState) =
       [Confirm ''Some images don't have a temperature value yet. Proceed anyway?'']
   \<and> snd (moveToStage3 False annotateState) = annotateState"
proof -
  let ?q = "queue (snd (moveToStage3 True annotateState))"
  have inc: "\<exists>item\<in>set (queue annotateState). stage item = Stage2 \<and> \<not> truthy (temperature item)"
    by (simp add: annotateState_def exampleItem_def)
  from moveToStage3_all_annotate_items[of True annotateState]
  have len: "length ?q = length (queue annotateState)"
    and nth: "\<forall>i < length (queue annotateState).
                ?q ! i = (if stage (queue annotateState ! i) = Stage2
                          then (queue annotateState ! i)\<lparr>stage := Stage3\<rparr>
                          else queue annotateState ! i)"
    and dlg: "fst (moveToStage3 True annotateState) =
       [Confirm ''Some images don't have a temperature value yet. Proceed anyway?'']"
    using inc by simp_all
  from moveToStage3_all_annotate_items[of False annotateState] inc
  have same: "snd (moveToStage3 False annotateState) = annotateState"
    by simp
  have l4: "length ?q = 4" using len by (simp add: annotateState_def)
  have s0: "stage (?q ! 0) = Stage1" using nth[rule_format, of 0]
    by (simp add: annotateState_def exampleItem_def)
  have s1: "stage (?q ! 1) = Stage3" using nth[rule_format, of 1]
    by (simp add: annotateState_def exampleItem_def)
  have s2: "stage (?q ! 2) = Stage3" using nth[rule_format, of 2]
    by (simp add: annotateState_def exampleItem_def)
  have s3: "stage (?q ! 3) = Stage3" using nth[rule_format, of 3]
    by (simp add: annotateState_def exampleItem_def)
  from l4 obtain w x y z where q: "?q = [w, x, y, z]"
    by (auto simp: length_Suc_conv eval_nat_numeral)
  with s0 s1 s2 s3 have "map stage ?q = [Stage1, Stage3, Stage3, Stage3]" by simp
  with dlg same show ?thesis by simp
qed

section \<open>The folder filter\<close>

text \<open>
  C8. With the folder filter on, ingestion appends to the queue, in input order, exactly
  the files that are image files and whose group label ends with the filter suffix, each
  as a stage-1 item whose folder name is that label; every other file is dropped and the
  items already queued stay where they are.
\<close>

theorem processFiles_folder_filter:
  assumes "onlyFilter s"
  shows "map file (queue (step s (ProcessFiles random files))) =
           map file (queue s)
           @ filter (\<lambda>f. isImageFile f \<and> (\<exists>p. groupLabel f = p @ filterSuffix s)) files
         \<and> map folderName (queue (step s (ProcessFiles random files))) =
           map folderName (queue s)
           @ map groupLabel
               (filter (\<lambda>f. isImageFile f \<and> (\<exists>p. groupLabel f = p @ filterSuffix s)) files)
         \<and> map stage (queue (step s (ProcessFiles random files))) =
           map stage (queue s)
           @ replicate
               (length (filter (\<lambda>f. isImageFile f \<and> (\<exists>p. groupLabel f = p @ filterSuffix s)) files))
               Stage1"
proof -
  have "accepted s = (\<lambda>f. isImageFile f \<and> (\<exists>p. groupLabel f = p @ filterSuffix s))"
    using assms by (simp add: accepted_def[abs_def])
  with step_ingest_files[of s random files] step_ingest_folders[of s random files]
    step_ingest_stages[of s random files]
  show ?thesis by simp
qed

theorem processFiles_folder_filter_witness:
  "onlyFilter initialState \<and> filterSuffix initialState = ''-1''
   \<and> map file (queue (step initialState (ProcessFiles (exampleIds ''s'') siteFiles))) =
       [exampleFile ''a.jpg'' ''siteA-1/a.jpg'', exampleFile ''c.jpg'' ''siteB-1/c.jpg'']
   \<and> map folderName (queue (step initialState (ProcessFiles (exampleIds ''s'') siteFiles))) =
       [''siteA-1'', ''siteB-1'']"
proof -
  have h: "onlyFilter initialState" by (simp add: initialState_def)
  from processFiles_folder_filter[OF h, of "exampleIds ''s''" siteFiles] h
  show ?thesis
    by (simp add: siteFiles_def exampleFile_def groupLabel_def makeItem_def isImageFile_def
          imageNameTest_def validTypes_def endsWith_iff[symmetric] endsWith_def toLowerAscii_def
          initialState_def)
qed

section \<open>Insertion order\<close>

lemma track_mono:
  assumes "i < j" and "j < length (queue s)"
    and "track s e i = Some i'" and "track s e j = Some j'"
  shows "i' < j'"
proof (cases e)
  case (RemoveItem rid)
  let ?P = "\<lambda>item. item_id item \<noteq> rid"
  from assms(3) RemoveItem have P: "?P (queue s ! i)"
    and i': "i' = length (filter ?P (take i (queue s)))"
    by (auto split: if_splits)
  from assms(4) RemoveItem have j': "j' = length (filter ?P (take j (queue s)))"
    by (auto split: if_splits)
  from assms(2) have "j \<le> length (queue s)" by simp
  from filter_take_mono[OF assms(1) this, of ?P, OF P] i' j' show ?thesis by simp
qed (use assms in auto)

lemma trackRun_mono:
  "i < j \<Longrightarrow> j < length (queue s) \<Longrightarrow>
   trackRun s es i = Some i' \<Longrightarrow> trackRun s es j = Some j' \<Longrightarrow> i' < j'"
proof (induction es arbitrary: s i j)
  case Nil
  then show ?case by simp
next
  case (Cons e es)
  from Cons.prems(3) obtain a where a: "track s e i = Some a"
    and ra: "trackRun (step s e) es a = Some i'"
    by (auto split: option.splits)
  from Cons.prems(4) obtain b where b: "track s e j = Some b"
    and rb: "trackRun (step s e) es b = Some j'"
    by (auto split: option.splits)
  from track_mono[OF Cons.prems(1,2) a b] have ab: "a < b" .
  from step_track[OF Cons.prems(2) b] have "b < length (queue (step s e))" by simp
  from Cons.IH[OF ab this ra rb] show ?case .
qed

lemma stageItems_only: "\<forall>item\<in>set (stageItems k s). stage item = k"
  by (simp add: stageItems_def)

lemma stageItems_count:
  "length (stageItems k s) = card {i. i < length (queue s) \<and> stage (queue s ! i) = k}"
  unfolding stageItems_def by (rule length_filter_conv_card)

lemma stageItems_position:
  assumes "i < length (queue s)" and "stage (queue s ! i) = k"
  shows "length (filter (\<lambda>item. stage item = k) (take i (queue s))) < length (stageItems k s)"
    and "stageItems k s ! length (filter (\<lambda>item. stage item = k) (take i (queue s))) = queue s ! i"
  using filter_take_nth[OF assms(1), of "\<lambda>item. stage item = k"] assms(2)
  by (simp_all add: stageItems_def)

lemma stageItems_order:
  assumes "i < j" and "j < length (queue s)" and "stage (queue s ! i) = k"
  shows "length (filter (\<lambda>item. stage item = k) (take i (queue s)))
           < length (filter (\<lambda>item. stage item = k) (take j (queue s)))"
proof -
  from assms(2) have "j \<le> length (queue s)" by simp
  from filter_take_mono[OF assms(1) this, of "\<lambda>item. stage item = k"] assms(3)
  show ?thesis by simp
qed

text \<open>
  C7. The view of a stage is the queue filtered by that stage and nothing else: every
  item of the view is at that stage, the view has as many items as the queue has
  positions at that stage, each item of the stage is in the view, at the position given
  by the number of items of the stage before it in the queue, and so two items of the
  stage appear in the view in the order they have in the queue. Ingestion appends the
  accepted files after the items already queued, in input order. Through any sequence of
  events, two items that both survive keep their relative order, and each is still the
  same item.
\<close>

theorem queue_insertion_order_preserved:
  "(\<forall>item\<in>set (stageItems k s). stage item = k)
   \<and> set (stageItems k s) \<subseteq> set (queue s)
   \<and> length (stageItems k s) = card {p. p < length (queue s) \<and> stage (queue s ! p) = k}
   \<and> (\<forall>p < length (queue s). stage (queue s ! p) = k \<longrightarrow>
        length (filter (\<lambda>item. stage item = k) (take p (queue s))) < length (stageItems k s)
        \<and> stageItems k s ! length (filter (\<lambda>item. stage item = k) (take p (queue s)))
            = queue s ! p)
   \<and> (\<forall>p q. p < q \<and> q < length (queue s) \<and> stage (queue s ! p) = k \<and> stage (queue s ! q) = k \<longrightarrow>
        length (filter (\<lambda>item. stage item = k) (take p (queue s)))
          < length (filter (\<lambda>item. stage item = k) (take q (queue s))))
   \<and> map file (queue (step s (ProcessFiles random files))) =
       map file (queue s) @ filter (accepted s) files
   \<and> (i < j \<and> j < length (queue s) \<and> trackRun s es i = Some i' \<and> trackRun s es j = Some j' \<longrightarrow>
        i' < j' \<and> j' < length (queue (run s es))
        \<and> sameItem (queue s ! i) (queue (run s es) ! i')
        \<and> sameItem (queue s ! j) (queue (run s es) ! j'))"
proof -
  have run: "i' < j' \<and> j' < length (queue (run s es))
        \<and> sameItem (queue s ! i) (queue (run s es) ! i')
        \<and> sameItem (queue s ! j) (queue (run s es) ! j')"
    if h: "i < j" "j < length (queue s)" "trackRun s es i = Some i'" "trackRun s es j = Some j'"
  proof -
    from h have il: "i < length (queue s)" by simp
    from trackRun_mono[OF h] run_track[OF il h(3)] run_track[OF h(2) h(4)]
    show ?thesis by simp
  qed
  have sub: "set (stageItems k s) \<subseteq> set (queue s)" by (auto simp: stageItems_def)
  have pos: "\<forall>p < length (queue s). stage (queue s ! p) = k \<longrightarrow>
        length (filter (\<lambda>item. stage item = k) (take p (queue s))) < length (stageItems k s)
        \<and> stageItems k s ! length (filter (\<lambda>item. stage item = k) (take p (queue s)))
            = queue s ! p"
    using stageItems_position[of _ s k] by blast
  have ord: "\<forall>p q. p < q \<and> q < length (queue s) \<and> stage (queue s ! p) = k \<and> stage (queue s ! q) = k \<longrightarrow>
        length (filter (\<lambda>item. stage item = k) (take p (queue s)))
          < length (filter (\<lambda>item. stage item = k) (take q (queue s)))"
    using stageItems_order[of _ _ s k] by blast
  note only = stageItems_only[of k s]
  note cnt = stageItems_count[of k s]
  note ing = step_ingest_files[of s random files]
  from run have run': "i < j \<and> j < length (queue s) \<and> trackRun s es i = Some i' \<and> trackRun s es j = Some j' \<longrightarrow>
        i' < j' \<and> j' < length (queue (run s es))
        \<and> sameItem (queue s ! i) (queue (run s es) ! i')
        \<and> sameItem (queue s ! j) (queue (run s es) ! j')" by blast
  show ?thesis
    apply (rule conjI, rule only)
    apply (rule conjI, rule sub)
    apply (rule conjI, rule cnt)
    apply (rule conjI, rule pos)
    apply (rule conjI, rule ord)
    apply (rule conjI, rule ing)
    apply (rule run')
    done
qed

theorem queue_insertion_order_preserved_witness:
  "trackRun exampleState orderEvents 0 = Some 0 \<and> trackRun exampleState orderEvents 2 = Some 1
   \<and> item_id (queue (run exampleState orderEvents) ! 0) = ''a''
   \<and> item_id (queue (run exampleState orderEvents) ! 1) = ''c''
   \<and> map item_id (stageItems Stage1 exampleState) = [''a'', ''c'']
   \<and> map item_id (stageItems Stage2 exampleState) = [''b'']
   \<and> map stage (stageItems Stage1 exampleState) = [Stage1, Stage1]"
proof -
  let ?P1 = "\<lambda>item. stage item = Stage1"
  let ?P2 = "\<lambda>item. stage item = Stage2"
  have hv: "(0::nat) < 2 \<and> 2 < length (queue exampleState)"
    by (simp add: exampleState_def exampleItem_def)
  have t0: "trackRun exampleState orderEvents 0 = Some 0"
    by (simp add: exampleState_def exampleItem_def orderEvents_def eval_defs)
  have t2: "trackRun exampleState orderEvents 2 = Some 1"
    by (simp add: exampleState_def exampleItem_def orderEvents_def eval_defs)
  note one = queue_insertion_order_preserved
         [of Stage1 exampleState "exampleIds ''s''" siteFiles 0 2 orderEvents 0 1]
  note two = queue_insertion_order_preserved
         [of Stage2 exampleState "exampleIds ''s''" siteFiles 0 2 orderEvents 0 1]
  from one hv t0 t2
  have "sameItem (queue exampleState ! 0) (queue (run exampleState orderEvents) ! 0)"
    and "sameItem (queue exampleState ! 2) (queue (run exampleState orderEvents) ! 1)"
    by blast+
  then have r: "item_id (queue (run exampleState orderEvents) ! 0) = item_id (queue exampleState ! 0)"
    "item_id (queue (run exampleState orderEvents) ! 1) = item_id (queue exampleState ! 2)"
    by (simp_all add: sameItem_def)
  have ids: "item_id (queue exampleState ! 0) = ''a''" "item_id (queue exampleState ! 1) = ''b''"
    "item_id (queue exampleState ! 2) = ''c''"
    by (simp_all add: exampleState_def exampleItem_def)
  have c1: "card {p. p < length (queue exampleState) \<and> stage (queue exampleState ! p) = Stage1} = 2"
  proof -
    have "{p. p < length (queue exampleState) \<and> stage (queue exampleState ! p) = Stage1} = {0, 2}"
      by (auto simp: exampleState_def exampleItem_def less_Suc_eq nth_Cons')
    then show ?thesis by simp
  qed
  have c2: "card {p. p < length (queue exampleState) \<and> stage (queue exampleState ! p) = Stage2} = 1"
  proof -
    have "{p. p < length (queue exampleState) \<and> stage (queue exampleState ! p) = Stage2} = {1}"
      by (auto simp: exampleState_def exampleItem_def less_Suc_eq nth_Cons')
    then show ?thesis by simp
  qed
  from one have l1: "length (stageItems Stage1 exampleState) = 2" unfolding c1 by blast
  from two have l2: "length (stageItems Stage2 exampleState) = 1" unfolding c2 by blast
  from one have p1: "\<forall>p < length (queue exampleState). stage (queue exampleState ! p) = Stage1 \<longrightarrow>
        stageItems Stage1 exampleState ! length (filter ?P1 (take p (queue exampleState)))
            = queue exampleState ! p"
    by blast
  from two have p2: "\<forall>p < length (queue exampleState). stage (queue exampleState ! p) = Stage2 \<longrightarrow>
        stageItems Stage2 exampleState ! length (filter ?P2 (take p (queue exampleState)))
            = queue exampleState ! p"
    by blast
  from p1[rule_format, of 0] have a: "stageItems Stage1 exampleState ! 0 = queue exampleState ! 0"
    by (simp add: exampleState_def exampleItem_def)
  from p1[rule_format, of 2] have c: "stageItems Stage1 exampleState ! 1 = queue exampleState ! 2"
    by (simp add: exampleState_def exampleItem_def)
  from p2[rule_format, of 1] have b: "stageItems Stage2 exampleState ! 0 = queue exampleState ! 1"
    by (simp add: exampleState_def exampleItem_def)
  from l1 obtain x y where v1: "stageItems Stage1 exampleState = [x, y]"
    by (auto simp: length_Suc_conv numeral_2_eq_2)
  from l2 obtain z where v2: "stageItems Stage2 exampleState = [z]"
    by (auto simp: length_Suc_conv)
  from a c v1 ids have m1: "map item_id (stageItems Stage1 exampleState) = [''a'', ''c'']" by simp
  from b v2 ids have m2: "map item_id (stageItems Stage2 exampleState) = [''b'']" by simp
  from one have "\<forall>item\<in>set (stageItems Stage1 exampleState). stage item = Stage1"
    by blast
  with v1 have o1: "map stage (stageItems Stage1 exampleState) = [Stage1, Stage1]" by simp
  from t0 t2 r ids m1 m2 o1 show ?thesis by simp
qed
section \<open>Item identifiers\<close>

lemma map_fst_filter_enumerate:
  "distinct (map fst (filter P (enumerate n xs)))
   \<and> set (map fst (filter P (enumerate n xs))) \<subseteq> {n..<n + length xs}"
proof
  have "distinct (map fst (enumerate n xs))" by simp
  then show "distinct (map fst (filter P (enumerate n xs)))"
    by (rule distinct_map_filter)
  show "set (map fst (filter P (enumerate n xs))) \<subseteq> {n..<n + length xs}"
    by (auto simp: in_set_enumerate_eq)
qed

lemma handle_ids_distinct:
  assumes "distinct (map item_id (queue s))" and "idsFresh s e"
  shows "distinct (map item_id (queue (snd (handle e s))))"
proof (cases e)
  case (ProcessFiles random files)
  let ?n = "length (filter isImageFile files)"
  let ?new = "filter (\<lambda>(k, f). onlyFilter s \<longrightarrow> endsWith (groupLabel f) (filterSuffix s))
                (enumerate 0 (filter isImageFile files))"
  from assms(2) ProcessFiles have d: "distinct (map random [0..<?n])"
    and disj: "set (map random [0..<?n]) \<inter> set (map item_id (queue s)) = {}"
    by (simp_all add: Let_def)
  have ids: "map item_id (map (\<lambda>(k, f). makeItem (random k) f) ?new) = map random (map fst ?new)"
    by (simp add: split_def makeItem_def Let_def)
  from map_fst_filter_enumerate[of _ 0 "filter isImageFile files"]
  have dk: "distinct (map fst ?new)" and sub: "set (map fst ?new) \<subseteq> {0..<?n}"
    by simp_all
  from d have "inj_on random {0..<?n}" by (simp add: distinct_map)
  with sub have "inj_on random (set (map fst ?new))" by (rule inj_on_subset[rotated])
  with dk have dn: "distinct (map random (map fst ?new))"
    by (subst distinct_map) blast
  from sub have "set (map random (map fst ?new)) \<subseteq> set (map random [0..<?n])"
    by auto
  with disj have "set (map random (map fst ?new)) \<inter> set (map item_id (queue s)) = {}"
    by blast
  then have disj': "set (map item_id (queue s)) \<inter> set (map random (map fst ?new)) = {}"
    by blast
  have "map item_id (queue (snd (handle e s))) =
        map item_id (queue s) @ map random (map fst ?new)"
    unfolding ProcessFiles handle.simps processFiles_queue map_append ids ..
  then show ?thesis
    unfolding distinct_append using assms(1) dn disj' by simp
next
  case (MoveToStage2 c)
  have "map item_id (queue (snd (moveToStage2 c s))) = map item_id (queue s)"
    by (simp add: moveToStage2_def Let_def comp_def if_distrib[of item_id] cong: if_cong)
  with assms MoveToStage2 show ?thesis by simp
next
  case (MoveToStage3 c)
  have "map item_id (queue (snd (moveToStage3 c s))) = map item_id (queue s)"
    by (simp add: moveToStage3_def Let_def comp_def if_distrib[of item_id] cong: if_cong)
  with assms MoveToStage3 show ?thesis by simp
next
  case (UpdateTemperature x v)
  have "map item_id (queue (updateTemperature x v s)) = map item_id (queue s)"
    by (simp add: updateTemperature_def comp_def if_distrib[of item_id] cong: if_cong)
  with assms UpdateTemperature show ?thesis by simp
next
  case (RemoveItem rid)
  with assms show ?thesis by (simp add: removeItem_def distinct_map_filter)
qed (use assms in auto)

lemma step_ids_distinct:
  assumes "distinct (map item_id (queue s))" and "idsFresh s e"
  shows "distinct (map item_id (queue (step s e)))"
proof -
  have "map item_id (queue (step s e)) = map item_id (queue (snd (handle e s)))"
    by (rule step_map_field) simp
  with handle_ids_distinct[OF assms] show ?thesis by simp
qed

lemma run_ids_distinct:
  "distinct (map item_id (queue s)) \<Longrightarrow> idsFreshRun s es \<Longrightarrow>
   distinct (map item_id (queue (run s es)))"
  by (induction es arbitrary: s) (simp_all add: step_ids_distinct)

text \<open>
  C9, as amended. An item's id never changes: through any sequence of events a surviving
  item carries the id it had. The ids of the queue stay pairwise distinct through the
  sequence provided the id generator is fresh at every event of it.
\<close>

theorem item_id_stable_and_unique_when_fresh:
  "(i < length (queue s) \<and> trackRun s es i = Some j \<longrightarrow>
      j < length (queue (run s es)) \<and> item_id (queue (run s es) ! j) = item_id (queue s ! i))
   \<and> (distinct (map item_id (queue s)) \<and> idsFreshRun s es \<longrightarrow>
        distinct (map item_id (queue (run s es))))"
  using run_track[of i s es j] run_ids_distinct[of s es]
  by (simp add: sameItem_def)

theorem item_id_stable_and_unique_when_fresh_witness:
  "distinct (map item_id (queue committedState)) \<and> idsFreshRun committedState laterEvents
   \<and> trackRun committedState laterEvents 1 = Some 0
   \<and> item_id (queue (run committedState laterEvents) ! 0) = ''a1''
   \<and> distinct (map item_id (queue (run committedState laterEvents)))"
proof -
  have d: "distinct (map item_id (queue committedState))"
    by (simp add: committedState_def eval_defs)
  have f: "idsFreshRun committedState laterEvents"
    by (simp add: committedState_def laterEvents_def eval_defs)
  have l: "1 < length (queue committedState)"
    by (simp add: committedState_def eval_defs)
  have t: "trackRun committedState laterEvents 1 = Some 0"
    by (simp add: committedState_def laterEvents_def eval_defs)
  have a: "item_id (queue committedState ! 1) = ''a1''"
    by (simp add: committedState_def eval_defs)
  from item_id_stable_and_unique_when_fresh[of 1 committedState laterEvents 0] d f l t
  have "item_id (queue (run committedState laterEvents) ! 0) = item_id (queue committedState ! 1)"
    and "distinct (map item_id (queue (run committedState laterEvents)))"
    by blast+
  with d f t a show ?thesis by simp
qed

text \<open>
  C9 as the specification states it, for every behaviour of the id generator, fails:
  the generator may return the same id twice, nothing in \<open>processFiles\<close> checks it, and
  the queue then holds two items with one id.
\<close>

theorem item_id_collision_counterexample:
  "map item_id (queue (step initialState (ProcessFiles constantIds siteFiles))) =
     [''k3j9x2m1q'', ''k3j9x2m1q'']
   \<and> \<not> distinct (map item_id (queue (step initialState (ProcessFiles constantIds siteFiles))))"
  by (simp add: siteFiles_def constantIds_def eval_defs)

section \<open>Decimal strings\<close>

lemma digitChar_code:
  assumes "d < 10"
  shows "of_char (digitChar d) = (48 + d :: nat)"
proof -
  from assms have "d = 0 \<or> d = 1 \<or> d = 2 \<or> d = 3 \<or> d = 4 \<or> d = 5 \<or> d = 6 \<or> d = 7 \<or> d = 8 \<or> d = 9"
    by arith
  then show ?thesis
    by (elim disjE) (simp_all add: digitChar_def)
qed

lemma digitChar_inj:
  assumes "a < 10" and "b < 10" and "digitChar a = digitChar b"
  shows "a = b"
proof -
  have "(48 + a :: nat) = of_char (digitChar a)"
    using assms(1) by (simp only: digitChar_code)
  also have "\<dots> = of_char (digitChar b)"
    by (simp only: assms(3))
  also have "\<dots> = 48 + b"
    using assms(2) by (simp only: digitChar_code)
  finally show ?thesis by simp
qed

lemma digitChar_zero:
  assumes "d < 10" and "digitChar d = CHR ''0''"
  shows "d = 0"
proof -
  have "(48 + d :: nat) = of_char (digitChar d)"
    using assms(1) by (simp only: digitChar_code)
  also have "\<dots> = of_char CHR ''0''"
    by (simp only: assms(2))
  also have "\<dots> = 48" by simp
  finally show ?thesis by simp
qed

lemma digitChar_not_special:
  assumes "d < 10"
  shows "digitChar d \<noteq> CHR ''.'' \<and> digitChar d \<noteq> CHR ''-''"
proof -
  have c: "of_char (digitChar d) = (48 + d :: nat)"
    using assms by (rule digitChar_code)
  have "digitChar d \<noteq> CHR ''.''"
  proof
    assume "digitChar d = CHR ''.''"
    then have "of_char (digitChar d) = (of_char CHR ''.'' :: nat)" by (rule arg_cong)
    with c show False by simp
  qed
  moreover have "digitChar d \<noteq> CHR ''-''"
  proof
    assume "digitChar d = CHR ''-''"
    then have "of_char (digitChar d) = (of_char CHR ''-'' :: nat)" by (rule arg_cong)
    with c show False by simp
  qed
  ultimately show ?thesis by simp
qed

lemma digits_nonempty: "digits n \<noteq> []"
  by (subst digits.simps) simp

lemma digits_chars: "c \<in> set (digits n) \<Longrightarrow> c \<noteq> CHR ''.'' \<and> c \<noteq> CHR ''-''"
proof (induction n rule: digits.induct)
  case (1 n)
  show ?case
  proof (cases "n < 10")
    case True
    with "1.prems" have "c = digitChar n" by (subst (asm) digits.simps) simp
    with True show ?thesis by (simp add: digitChar_not_special)
  next
    case False
    with "1.prems" have "c \<in> set (digits (n div 10)) \<or> c = digitChar (n mod 10)"
      by (subst (asm) digits.simps) auto
    then show ?thesis
    proof
      assume "c \<in> set (digits (n div 10))"
      with "1.IH"[OF False] show ?thesis by simp
    next
      assume "c = digitChar (n mod 10)"
      then show ?thesis by (simp add: digitChar_not_special)
    qed
  qed
qed

lemma digits_leading_zero: "hd (digits n) = CHR ''0'' \<Longrightarrow> n = 0"
proof (induction n rule: digits.induct)
  case (1 n)
  show ?case
  proof (cases "n < 10")
    case True
    with "1.prems" have "digitChar n = CHR ''0''" by (subst (asm) digits.simps) simp
    with True show ?thesis by (rule digitChar_zero)
  next
    case False
    with "1.prems" have "hd (digits (n div 10)) = CHR ''0''"
      by (subst (asm) digits.simps) (simp add: digits_nonempty)
    with "1.IH"[OF False] have "n div 10 = 0" by simp
    with False show ?thesis by simp
  qed
qed

lemma digits_inj: "digits a = digits b \<Longrightarrow> a = b"
proof (induction a arbitrary: b rule: digits.induct)
  case (1 a)
  show ?case
  proof (cases "a < 10")
    case a: True
    show ?thesis
    proof (cases "b < 10")
      case True
      with a "1.prems" have "digitChar a = digitChar b"
        by (subst (asm) digits.simps, subst (asm) (2) digits.simps) simp
      with a True show ?thesis by (rule digitChar_inj)
    next
      case False
      with a "1.prems" have "[digitChar a] = digits (b div 10) @ [digitChar (b mod 10)]"
        by (subst (asm) digits.simps, subst (asm) (2) digits.simps) simp
      then show ?thesis using digits_nonempty[of "b div 10"] by simp
    qed
  next
    case a: False
    show ?thesis
    proof (cases "b < 10")
      case True
      with a "1.prems" have "digits (a div 10) @ [digitChar (a mod 10)] = [digitChar b]"
        by (subst (asm) digits.simps, subst (asm) (2) digits.simps) simp
      then show ?thesis using digits_nonempty[of "a div 10"] by simp
    next
      case False
      with a "1.prems"
      have "digits (a div 10) @ [digitChar (a mod 10)] = digits (b div 10) @ [digitChar (b mod 10)]"
        by (subst (asm) digits.simps, subst (asm) (2) digits.simps) simp
      then have d: "digits (a div 10) = digits (b div 10)"
        and m: "digitChar (a mod 10) = digitChar (b mod 10)"
        by simp_all
      from "1.IH"[OF a d] have "a div 10 = b div 10" .
      moreover from m have "a mod 10 = b mod 10" by (intro digitChar_inj) simp_all
      moreover have "a = 10 * (a div 10) + a mod 10" "b = 10 * (b div 10) + b mod 10"
        by simp_all
      ultimately show ?thesis by arith
    qed
  qed
qed

lemma intToString_inj: "intToString a = intToString b \<Longrightarrow> a = b"
proof -
  assume eq: "intToString a = intToString b"
  have nd: "hd (digits m) \<noteq> CHR ''-''" for m
  proof -
    have "hd (digits m) \<in> set (digits m)" by (simp add: digits_nonempty)
    then show ?thesis using digits_chars by blast
  qed
  show "a = b"
  proof (cases "a < 0")
    case a: True
    show ?thesis
    proof (cases "b < 0")
      case True
      with a eq have "digits (nat (- a)) = digits (nat (- b))" by (simp add: intToString_def)
      then have "nat (- a) = nat (- b)" by (rule digits_inj)
      with a True show ?thesis by simp
    next
      case False
      with a eq have "CHR ''-'' # digits (nat (- a)) = digits (nat b)"
        by (simp add: intToString_def)
      then have "hd (CHR ''-'' # digits (nat (- a))) = hd (digits (nat b))" by (rule arg_cong)
      then have "hd (digits (nat b)) = CHR ''-''" by simp
      with nd show ?thesis by simp
    qed
  next
    case a: False
    show ?thesis
    proof (cases "b < 0")
      case True
      with a eq have "digits (nat a) = CHR ''-'' # digits (nat (- b))"
        by (simp add: intToString_def)
      then have "hd (digits (nat a)) = CHR ''-''" by simp
      with nd show ?thesis by simp
    next
      case False
      with a eq have "digits (nat a) = digits (nat b)" by (simp add: intToString_def)
      then have "nat a = nat b" by (rule digits_inj)
      with a False show ?thesis by simp
    qed
  qed
qed

lemma intToString_nonempty: "intToString n \<noteq> []"
  by (simp add: intToString_def digits_nonempty)

lemma intToString_leading_zero: "hd (intToString n) = CHR ''0'' \<Longrightarrow> intToString n = ''0''"
proof (cases "n < 0")
  case True
  assume "hd (intToString n) = CHR ''0''"
  with True show ?thesis by (simp add: intToString_def)
next
  case False
  assume "hd (intToString n) = CHR ''0''"
  with False have "hd (digits (nat n)) = CHR ''0''" by (simp add: intToString_def)
  then have "nat n = 0" by (rule digits_leading_zero)
  with False show ?thesis by (simp add: intToString_def digits.simps digitChar_def)
qed

lemma intToString_no_dot: "CHR ''.'' \<notin> set (intToString n)"
  using digits_chars by (auto simp: intToString_def)

lemma sequenceName_padded:
  "sequenceName pre n original = pre @ paddedSequence n @ ''.'' @ getExtension original"
  by (simp add: sequenceName_def paddedSequence_def)

lemma paddedSequence_safe:
  "\<bar>n\<bar> \<le> 2 ^ 53 \<Longrightarrow>
   paddedSequence (Num n) = replicate (3 - length (intToString n)) CHR ''0'' @ intToString n"
  by (simp only: paddedSequence_def numberToString_safe)

lemma paddedSequence_no_dot:
  assumes "\<bar>n\<bar> \<le> 2 ^ 53"
  shows "CHR ''.'' \<notin> set (paddedSequence (Num n))"
  using intToString_no_dot[of n] by (auto simp: paddedSequence_safe[OF assms])

lemma replicate_append_canonical:
  assumes "replicate k CHR ''0'' @ t = u" and "k > 0" and "t \<noteq> []"
    and "hd u = CHR ''0'' \<Longrightarrow> u = ''0''"
  shows False
proof -
  from assms(2) obtain m where m: "k = Suc m" by (cases k) auto
  with assms(1) have u: "u = CHR ''0'' # replicate m CHR ''0'' @ t" by auto
  then have "hd u = CHR ''0''" by simp
  with assms(4) have "u = ''0''" by simp
  with u assms(3) show False by simp
qed

lemma paddedSequence_inj:
  assumes "paddedSequence (Num a) = paddedSequence (Num b)"
    and sa: "\<bar>a\<bar> \<le> 2 ^ 53" and sb: "\<bar>b\<bar> \<le> 2 ^ 53"
  shows "a = b"
proof -
  let ?sa = "intToString a" and ?sb = "intToString b"
  let ?ka = "3 - length ?sa" and ?kb = "3 - length ?sb"
  from assms(1) have eq: "replicate ?ka CHR ''0'' @ ?sa = replicate ?kb CHR ''0'' @ ?sb"
    by (simp only: paddedSequence_safe[OF sa] paddedSequence_safe[OF sb])
  have "?sa = ?sb"
  proof (cases "?ka \<le> ?kb")
    case True
    then have "replicate ?kb CHR ''0'' = replicate ?ka CHR ''0'' @ replicate (?kb - ?ka) CHR ''0''"
      by (simp add: replicate_add[symmetric])
    with eq have e: "replicate (?kb - ?ka) CHR ''0'' @ ?sb = ?sa" by simp
    show ?thesis
    proof (cases "?kb - ?ka = 0")
      case True
      with e show ?thesis by simp
    next
      case False
      then have "?kb - ?ka > 0" by simp
      from replicate_append_canonical[OF e this intToString_nonempty intToString_leading_zero]
      show ?thesis by simp
    qed
  next
    case False
    then have "replicate ?ka CHR ''0'' = replicate ?kb CHR ''0'' @ replicate (?ka - ?kb) CHR ''0''"
      by (simp add: replicate_add[symmetric])
    with eq have e: "replicate (?ka - ?kb) CHR ''0'' @ ?sa = ?sb" by simp
    from False have "?ka - ?kb > 0" by simp
    from replicate_append_canonical[OF e this intToString_nonempty intToString_leading_zero]
    show ?thesis by simp
  qed
  then show ?thesis by (rule intToString_inj)
qed

lemma split_at_first:
  assumes "xs @ c # ys = xs' @ c # ys'" and "c \<notin> set xs" and "c \<notin> set xs'"
  shows "xs = xs'"
proof -
  have "takeWhile (\<lambda>x. x \<noteq> c) (xs @ c # ys) = xs"
    using assms(2) by (auto simp: takeWhile_tail)
  moreover have "takeWhile (\<lambda>x. x \<noteq> c) (xs' @ c # ys') = xs'"
    using assms(3) by (auto simp: takeWhile_tail)
  ultimately show ?thesis using assms(1) by simp
qed

lemma sequenceName_inj:
  assumes "sequenceName pre (Num a) x = sequenceName pre (Num b) y"
    and sa: "\<bar>a\<bar> \<le> 2 ^ 53" and sb: "\<bar>b\<bar> \<le> 2 ^ 53"
  shows "a = b"
proof -
  from assms(1) have "paddedSequence (Num a) @ CHR ''.'' # getExtension x
                 = paddedSequence (Num b) @ CHR ''.'' # getExtension y"
    by (simp add: sequenceName_padded)
  then have "paddedSequence (Num a) = paddedSequence (Num b)"
    by (rule split_at_first) (rule paddedSequence_no_dot[OF sa] paddedSequence_no_dot[OF sb])+
  then show ?thesis using sa sb by (rule paddedSequence_inj)
qed

section \<open>The previews are current in every reachable state\<close>

lemma previewLoop_map_commute:
  assumes "\<And>it. (stage (g it) = Stage1) = (stage it = Stage1)"
    and "\<And>it. originalName (g it) = originalName it"
    and "\<And>it v. g (it\<lparr>previewName := v\<rparr>) = (g it)\<lparr>previewName := v\<rparr>"
  shows "previewLoop pre n (map g q) = map g (previewLoop pre n q)"
  by (induction q arbitrary: n) (simp_all add: previewLoop_Cons assms del: previewLoop.simps(2))

lemma filter_length_same: "length (filter P xs) = length xs \<Longrightarrow> filter P xs = xs"
proof (induction xs)
  case Nil
  then show ?case by simp
next
  case (Cons x xs)
  have le: "length (filter P xs) \<le> length xs" by simp
  show ?case
  proof (cases "P x")
    case True
    with Cons show ?thesis by simp
  next
    case False
    with Cons.prems le show ?thesis by simp
  qed
qed

lemma commit_leaves_no_stage1:
  "\<forall>it\<in>set (map (\<lambda>item. if stage item = Stage1
                then item\<lparr>stage := Stage2, newName := previewName item, status := Idle\<rparr>
                else item) q). stage it \<noteq> Stage1"
proof
  fix it
  assume "it \<in> set (map (\<lambda>item. if stage item = Stage1
                then item\<lparr>stage := Stage2, newName := previewName item, status := Idle\<rparr>
                else item) q)"
  then obtain item where it: "it = (if stage item = Stage1
                then item\<lparr>stage := Stage2, newName := previewName item, status := Idle\<rparr>
                else item)"
    by (auto simp only: set_map)
  show "stage it \<noteq> Stage1"
    unfolding it by (cases "stage item = Stage1") simp_all
qed

lemma handle_current:
  assumes cur: "previewsCurrent s" and same: "deps (snd (handle e s)) = deps s"
  shows "previewsCurrent (snd (handle e s))"
proof (cases e)
  case (SetPrefix p)
  with assms show ?thesis by (simp add: previewsCurrent_def deps_def)
next
  case (SetStartIndex n)
  with assms show ?thesis by (simp add: previewsCurrent_def deps_def)
next
  case (SetFilterSuffix x)
  with assms show ?thesis by (simp add: previewsCurrent_def deps_def)
next
  case (SetOnlyFilter b)
  with assms show ?thesis by (simp add: previewsCurrent_def deps_def)
next
  case (ProcessFiles random files)
  with same have "length (queue (snd (processFiles random files s))) = length (queue s)"
    by (simp add: deps_def)
  then have "queue (snd (processFiles random files s)) = queue s"
    by (simp add: processFiles_queue)
  moreover have "prefix (snd (processFiles random files s)) = prefix s"
    "startIndex (snd (processFiles random files s)) = startIndex s"
    by (simp_all add: processFiles_def Let_def)
  ultimately show ?thesis using cur ProcessFiles by (simp add: previewsCurrent_def)
next
  case (MoveToStage2 c)
  show ?thesis
  proof (cases c)
    case False
    with cur MoveToStage2 show ?thesis by (simp add: moveToStage2_def)
  next
    case True
    let ?q' = "map (\<lambda>item. if stage item = Stage1
                then item\<lparr>stage := Stage2, newName := previewName item, status := Idle\<rparr>
                else item) (queue s)"
    have q: "queue (snd (handle e s)) = ?q'"
      using MoveToStage2 True by (simp add: moveToStage2_def Let_def)
    have "previewLoop (prefix (snd (handle e s))) (startIndex (snd (handle e s))) ?q' = ?q'"
      by (rule previewLoop_no_stage1[OF commit_leaves_no_stage1])
    then show ?thesis
      unfolding previewsCurrent_def q .
  qed
next
  case (MoveToStage3 c)
  let ?g = "\<lambda>item. if stage item = Stage2 then item\<lparr>stage := Stage3\<rparr> else item"
  have "previewLoop (prefix s) (startIndex s) (map ?g (queue s))
        = map ?g (previewLoop (prefix s) (startIndex s) (queue s))"
    by (rule previewLoop_map_commute) auto
  with cur MoveToStage3 show ?thesis
    by (simp add: moveToStage3_def Let_def previewsCurrent_def)
next
  case (UpdateTemperature x v)
  let ?g = "\<lambda>item. if item_id item = x
                   then item\<lparr>temperature := Some v, status := (if v \<noteq> [] then Success else Idle)\<rparr>
                   else item"
  have "previewLoop (prefix s) (startIndex s) (map ?g (queue s))
        = map ?g (previewLoop (prefix s) (startIndex s) (queue s))"
    by (rule previewLoop_map_commute) auto
  with cur UpdateTemperature show ?thesis
    by (simp add: updateTemperature_def previewsCurrent_def)
next
  case (RemoveItem rid)
  with same have "length (filter (\<lambda>item. item_id item \<noteq> rid) (queue s)) = length (queue s)"
    by (simp add: removeItem_def deps_def)
  then have "filter (\<lambda>item. item_id item \<noteq> rid) (queue s) = queue s"
    by (rule filter_length_same)
  with cur RemoveItem show ?thesis by (simp add: removeItem_def previewsCurrent_def)
qed

lemma step_current: "previewsCurrent s \<Longrightarrow> previewsCurrent (step s e)"
proof -
  assume cur: "previewsCurrent s"
  show ?thesis
  proof (cases "deps (snd (handle e s)) = deps s")
    case True
    from handle_current[OF cur True] True show ?thesis by (simp add: step_def Let_def)
  next
    case False
    then show ?thesis
      by (simp add: step_def Let_def previewsCurrent_def previewEffect_def previewLoop_idem)
  qed
qed

lemma run_current: "previewsCurrent s \<Longrightarrow> previewsCurrent (run s es)"
  by (induction es arbitrary: s) (simp_all add: step_current)

lemma initial_current: "previewsCurrent initialState"
  by (simp add: previewsCurrent_def initialState_def)

section \<open>Names within one commit\<close>

lemma getExtension_no_dot:
  assumes "length filename < 2 ^ 32"
  shows "CHR ''.'' \<notin> set (getExtension filename)"
proof (cases "CHR ''.'' \<in> set (tl filename)")
  case True
  then have "CHR ''.'' \<in> set filename" by (cases filename) auto
  from afterLastDot_split(2)[OF this] getExtension_cases[OF assms] True show ?thesis by simp
next
  case False
  with getExtension_cases[OF assms] show ?thesis by simp
qed

lemma commit_newName:
  assumes cur: "previewsCurrent s" and i: "i < length (queue s)"
    and st: "stage (queue s ! i) = Stage1"
  shows "newName (queue (step s (MoveToStage2 True)) ! i) =
           Some (sequenceName (prefix s)
                   (cursorAfter (length (filter isStage1 (take i (queue s)))) (startIndex s))
                   (originalName (queue s ! i)))"
proof -
  let ?q1 = "queue (snd (handle (MoveToStage2 True) s))"
  have l: "i < length ?q1" using i by (simp add: moveToStage2_def Let_def)
  have "newName (queue (step s (MoveToStage2 True)) ! i) = newName (?q1 ! i)"
    by (rule step_nth_field[OF l]) simp
  also have "\<dots> = previewName (queue s ! i)"
    using i st by (simp add: moveToStage2_def Let_def)
  also have "\<dots> = previewName (previewLoop (prefix s) (startIndex s) (queue s) ! i)"
    using cur by (simp add: previewsCurrent_def)
  also have "\<dots> = Some (sequenceName (prefix s)
                   (cursorAfter (length (filter isStage1 (take i (queue s)))) (startIndex s))
                   (originalName (queue s ! i)))"
    using i st by (simp add: previewLoop_nth)
  finally show ?thesis .
qed

text \<open>
  While the start index is an integer (in the range where a number holds every integer),
  the names frozen by one commit are pairwise distinct: the items get consecutive numbers,
  the padded number holds no dot, and so the text before the first dot after the prefix
  tells the numbers apart.
\<close>

lemma commit_names_distinct_for_integer_start:
  assumes "previewsCurrent s" and "startIndex s = Num n"
    and "i < j" and "j < length (queue s)"
    and "stage (queue s ! i) = Stage1" and "stage (queue s ! j) = Stage1"
    and lo: "\<bar>n\<bar> \<le> 2 ^ 53" and hi: "\<bar>n + int (length (stageItems Stage1 s))\<bar> \<le> 2 ^ 53"
  shows "newName (queue (step s (MoveToStage2 True)) ! i)
           \<noteq> newName (queue (step s (MoveToStage2 True)) ! j)"
proof
  let ?ci = "length (filter isStage1 (take i (queue s)))"
  let ?cj = "length (filter isStage1 (take j (queue s)))"
  from assms have il: "i < length (queue s)" and jl: "j \<le> length (queue s)" by simp_all
  note ni = commit_newName[OF assms(1) il assms(5)]
  note nj = commit_newName[OF assms(1) assms(4) assms(6)]
  from filter_take_mono[OF assms(3) jl, of isStage1] assms(5)
  have lt: "?ci < ?cj"
    by (simp add: isStage1_def)
  have tot: "length (stageItems Stage1 s) = length (filter isStage1 (queue s))"
    by (simp add: stageItems_def isStage1_def[abs_def])
  have cj: "?cj \<le> length (stageItems Stage1 s)" unfolding tot by (rule filter_take_le)
  from lt cj have ci: "?ci \<le> length (stageItems Stage1 s)" by simp
  note wi = cursorAfter_within[OF lo hi ci]
  note wj = cursorAfter_within[OF lo hi cj]
  assume "newName (queue (step s (MoveToStage2 True)) ! i)
            = newName (queue (step s (MoveToStage2 True)) ! j)"
  with ni nj have "sequenceName (prefix s) (Num (n + int ?ci)) (originalName (queue s ! i))
             = sequenceName (prefix s) (Num (n + int ?cj)) (originalName (queue s ! j))"
    by (simp add: assms(2) wi(1) wj(1))
  from sequenceName_inj[OF this wi(2) wj(2)] lt show False by simp
qed

text \<open>
  C10 fails in the code when the start index is \<open>NaN\<close>, which is what \<open>parseInt\<close> stores
  when the user empties the number field: \<open>NaN.toString()\<close> is \<open>"NaN"\<close> and \<open>NaN++\<close> is
  \<open>NaN\<close>, so every stage-1 item gets the same number. From the initial state, emptying
  the field, ingesting \<open>a.jpg\<close> and \<open>b.jpg\<close> and committing freezes the name
  \<open>01-NaN.jpg\<close> on both items, and the start index stays \<open>NaN\<close>.
\<close>

theorem commit_names_collide_when_startIndex_NaN:
  "map stage (queue (run initialState nanEvents)) = [Stage2, Stage2]
   \<and> map originalName (queue (run initialState nanEvents)) = [''a.jpg'', ''b.jpg'']
   \<and> map newName (queue (run initialState nanEvents)) = [Some ''01-NaN.jpg'', Some ''01-NaN.jpg'']
   \<and> startIndex (run initialState nanEvents) = NaN"
  by (simp add: nanEvents_def eval_defs)

section \<open>The commit to stage 2\<close>

lemma previewLoop_append_no_stage1:
  "\<forall>it\<in>set q. stage it \<noteq> Stage1 \<Longrightarrow>
   previewLoop pre n (q @ r) = q @ previewLoop pre n r"
  by (induction q) (simp_all add: previewLoop_Cons del: previewLoop.simps(2))

lemma accepted_all:
  assumes "\<forall>f\<in>set files. accepted s f"
  shows "filter isImageFile files = files"
    and "filter (\<lambda>(k, f). onlyFilter s \<longrightarrow> endsWith (groupLabel f) (filterSuffix s))
           (enumerate m files) = enumerate m files"
proof -
  from assms show "filter isImageFile files = files"
    by (simp add: accepted_def filter_id_conv)
  have "\<forall>x\<in>set (enumerate m files).
          (case x of (k, f) \<Rightarrow> onlyFilter s \<longrightarrow> endsWith (groupLabel f) (filterSuffix s))"
    using assms by (auto simp: accepted_def endsWith_iff in_set_enumerate_eq)
  then show "filter (\<lambda>(k, f). onlyFilter s \<longrightarrow> endsWith (groupLabel f) (filterSuffix s))
           (enumerate m files) = enumerate m files"
    by (simp only: filter_id_conv)
qed

lemma names_of_new_items:
  "map (\<lambda>(j, it). F j (originalName it))
     (enumerate m (map (\<lambda>(k, f). makeItem (random k) f) (enumerate m' files)))
   = map (\<lambda>(j, f). F j (name f)) (enumerate m files)"
  by (induction files arbitrary: m m') (simp_all add: makeItem_def Let_def)

lemma new_items_stage1:
  "\<forall>it\<in>set (map (\<lambda>(k, f). makeItem (random k) f) (enumerate m files)). stage it = Stage1"
  by (auto simp: makeItem_def Let_def)

lemma previewLoop_keeps_stage: "map stage (previewLoop pre n q) = map stage q"
  by (rule previewLoop_map_field) simp

lemma commit_on_settled:
  "\<forall>it\<in>set q. stage it \<noteq> Stage1 \<Longrightarrow>
   map (\<lambda>item. if stage item = Stage1
                then item\<lparr>stage := Stage2, newName := previewName item, status := Idle\<rparr>
                else item) q = q"
  by (induction q) simp_all

lemma commit_on_pending_names:
  "\<forall>it\<in>set q. stage it = Stage1 \<Longrightarrow>
   map newName (map (\<lambda>item. if stage item = Stage1
                then item\<lparr>stage := Stage2, newName := previewName item, status := Idle\<rparr>
                else item) q) = map previewName q"
  by (induction q) simp_all

lemma commit_on_pending_stages:
  "\<forall>it\<in>set q. stage it = Stage1 \<Longrightarrow>
   map stage (map (\<lambda>item. if stage item = Stage1
                then item\<lparr>stage := Stage2, newName := previewName item, status := Idle\<rparr>
                else item) q) = replicate (length q) Stage2"
  by (induction q) simp_all

lemma ingest_settled:
  assumes settled: "\<forall>it\<in>set (queue s). stage it \<noteq> Stage1"
    and acc: "\<forall>f\<in>set files. accepted s f"
  shows "queue (step s (ProcessFiles random files)) =
           queue s @ previewLoop (prefix s) (startIndex s)
                       (map (\<lambda>(k, f). makeItem (random k) f) (enumerate 0 files))"
    and "prefix (step s (ProcessFiles random files)) = prefix s"
    and "startIndex (step s (ProcessFiles random files)) = startIndex s"
    and "filterSuffix (step s (ProcessFiles random files)) = filterSuffix s"
    and "onlyFilter (step s (ProcessFiles random files)) = onlyFilter s"
proof -
  let ?new = "map (\<lambda>(k, f). makeItem (random k) f) (enumerate 0 files)"
  let ?s' = "snd (handle (ProcessFiles random files) s)"
  have q: "queue ?s' = queue s @ ?new"
    by (simp add: processFiles_queue accepted_all[OF acc])
  have f: "prefix ?s' = prefix s" "startIndex ?s' = startIndex s"
    "filterSuffix ?s' = filterSuffix s" "onlyFilter ?s' = onlyFilter s"
    by (simp_all add: processFiles_def Let_def)
  show "queue (step s (ProcessFiles random files)) =
           queue s @ previewLoop (prefix s) (startIndex s) ?new"
  proof (cases "deps ?s' = deps s")
    case True
    then have "length (queue ?s') = length (queue s)" by (simp add: deps_def)
    with q have "?new = []" by simp
    with True q show ?thesis by (simp add: step_def Let_def)
  next
    case False
    then have "queue (step s (ProcessFiles random files)) =
        previewLoop (prefix ?s') (startIndex ?s') (queue ?s')"
      by (simp add: step_def Let_def previewEffect_def)
    with q f previewLoop_append_no_stage1[OF settled] show ?thesis by simp
  qed
  show "prefix (step s (ProcessFiles random files)) = prefix s"
    "startIndex (step s (ProcessFiles random files)) = startIndex s"
    "filterSuffix (step s (ProcessFiles random files)) = filterSuffix s"
    "onlyFilter (step s (ProcessFiles random files)) = onlyFilter s"
    using f by (simp_all add: step_def Let_def previewEffect_def)
qed

lemma step_config:
  "prefix (step s e) = prefix (snd (handle e s))"
  "startIndex (step s e) = startIndex (snd (handle e s))"
  "filterSuffix (step s e) = filterSuffix (snd (handle e s))"
  "onlyFilter (step s e) = onlyFilter (snd (handle e s))"
  by (simp_all add: step_def Let_def previewEffect_def)

lemma filter_all: "\<forall>x\<in>set xs. P x \<Longrightarrow> filter P xs = xs"
  by (simp add: filter_id_conv)

lemma filter_none: "\<forall>x\<in>set xs. \<not> P x \<Longrightarrow> filter P xs = []"
  by (simp add: filter_empty_conv)

lemma batch_commit:
  assumes settled: "\<forall>it\<in>set (queue s). stage it \<noteq> Stage1"
    and acc: "\<forall>f\<in>set files. accepted s f"
    and num: "startIndex s = Num n"
    and lo: "\<bar>n\<bar> \<le> 2 ^ 53" and hi: "\<bar>n + int (length files)\<bar> \<le> 2 ^ 53"
  shows "map newName (queue (run s [ProcessFiles random files, MoveToStage2 True])) =
           map newName (queue s)
           @ map (\<lambda>(k, f). Some (sequenceName (prefix s) (Num (n + int k)) (name f)))
               (enumerate 0 files)"
    and "map stage (queue (run s [ProcessFiles random files, MoveToStage2 True])) =
           map stage (queue s) @ replicate (length files) Stage2"
    and "startIndex (run s [ProcessFiles random files, MoveToStage2 True]) =
           Num (n + int (length files))"
    and "prefix (run s [ProcessFiles random files, MoveToStage2 True]) = prefix s"
    and "filterSuffix (run s [ProcessFiles random files, MoveToStage2 True]) = filterSuffix s"
    and "onlyFilter (run s [ProcessFiles random files, MoveToStage2 True]) = onlyFilter s"
proof -
  let ?new = "map (\<lambda>(k, f). makeItem (random k) f) (enumerate 0 files)"
  let ?P = "previewLoop (prefix s) (Num n) ?new"
  let ?s1 = "step s (ProcessFiles random files)"
  let ?commit = "\<lambda>item. if stage item = Stage1
                then item\<lparr>stage := Stage2, newName := previewName item, status := Idle\<rparr>
                else item"
  let ?h2 = "snd (handle (MoveToStage2 True) ?s1)"
  note s1 = ingest_settled[OF settled acc, of random, unfolded num]
  have "map stage ?P = map stage ?new" by (rule previewLoop_keeps_stage)
  also have "\<dots> = replicate (length ?new) Stage1"
    using new_items_stage1[of random 0 files] by (simp add: map_replicate_const comp_def split_def makeItem_def Let_def)
  finally have stP: "map stage ?P = replicate (length ?new) Stage1" .
  have pend: "\<forall>it\<in>set ?P. stage it = Stage1"
  proof
    fix it assume "it \<in> set ?P"
    then have "stage it \<in> set (map stage ?P)" by simp
    then show "stage it = Stage1" unfolding stP by simp
  qed
  have lenP: "length ?P = length files" by simp
  have q2: "queue ?h2 = queue s @ map ?commit ?P"
    using commit_on_settled[OF settled] by (simp add: moveToStage2_def Let_def s1(1))
  have cnt: "filter (\<lambda>i. stage i = Stage1) (queue s @ ?P) = ?P"
    using filter_none[of "queue s" "\<lambda>i. stage i = Stage1"] settled
      filter_all[of ?P "\<lambda>i. stage i = Stage1"] pend
    by simp
  have "startIndex ?h2 = jsAdd (Num n) (int (length files))"
    by (simp add: moveToStage2_def Let_def s1(1) s1(3) cnt del: filter_append jsAdd.simps)
  also have "\<dots> = Num (n + int (length files))" using hi by (rule jsAdd_safe)
  finally have st2: "startIndex ?h2 = Num (n + int (length files))" .
  have names: "map previewName ?P =
      map (\<lambda>(k, f). Some (sequenceName (prefix s) (Num (n + int k)) (name f))) (enumerate 0 files)"
  proof -
    from previewLoop_names[OF new_items_stage1, where pre = "prefix s" and n = "Num n" and k = 0,
           of random 0 files]
    have "map previewName ?P =
        map (\<lambda>(j, it). Some (sequenceName (prefix s) (cursorAfter j (Num n)) (originalName it)))
          (enumerate 0 ?new)"
      by simp
    also have "\<dots> = map (\<lambda>(j, f). Some (sequenceName (prefix s) (cursorAfter j (Num n)) (name f)))
          (enumerate 0 files)"
      by (rule names_of_new_items)
    also have "\<dots> = map (\<lambda>(k, f). Some (sequenceName (prefix s) (Num (n + int k)) (name f)))
          (enumerate 0 files)"
    proof (rule map_cong[OF refl])
      fix x assume "x \<in> set (enumerate 0 files)"
      then have "fst x < length files" by (auto simp: in_set_enumerate_eq)
      then have "fst x \<le> length files" by simp
      from cursorAfter_within(1)[OF lo hi this]
      show "(case x of (j, f) \<Rightarrow> Some (sequenceName (prefix s) (cursorAfter j (Num n)) (name f)))
          = (case x of (k, f) \<Rightarrow> Some (sequenceName (prefix s) (Num (n + int k)) (name f)))"
        by (simp add: split_def)
    qed
    finally show ?thesis .
  qed
  have run: "run s [ProcessFiles random files, MoveToStage2 True] = step ?s1 (MoveToStage2 True)"
    by simp
  have "map newName (queue (step ?s1 (MoveToStage2 True))) = map newName (queue ?h2)"
    by (rule step_map_field) simp
  also have "\<dots> = map newName (queue s) @ map previewName ?P"
    unfolding q2 using commit_on_pending_names[OF pend] by simp
  finally show "map newName (queue (run s [ProcessFiles random files, MoveToStage2 True])) =
           map newName (queue s)
           @ map (\<lambda>(k, f). Some (sequenceName (prefix s) (Num (n + int k)) (name f)))
               (enumerate 0 files)"
    unfolding run names .
  have "map stage (queue (step ?s1 (MoveToStage2 True))) = map stage (queue ?h2)"
    by (rule step_map_field) simp
  also have "\<dots> = map stage (queue s) @ replicate (length files) Stage2"
    unfolding q2 using commit_on_pending_stages[OF pend] lenP by simp
  finally show "map stage (queue (run s [ProcessFiles random files, MoveToStage2 True])) =
           map stage (queue s) @ replicate (length files) Stage2"
    unfolding run .
  show "startIndex (run s [ProcessFiles random files, MoveToStage2 True]) =
           Num (n + int (length files))"
    unfolding run step_config st2 ..
  show "prefix (run s [ProcessFiles random files, MoveToStage2 True]) = prefix s"
    unfolding run step_config by (simp add: moveToStage2_def Let_def s1(2))
  show "filterSuffix (run s [ProcessFiles random files, MoveToStage2 True]) = filterSuffix s"
    unfolding run step_config by (simp add: moveToStage2_def Let_def s1(4))
  show "onlyFilter (run s [ProcessFiles random files, MoveToStage2 True]) = onlyFilter s"
    unfolding run step_config by (simp add: moveToStage2_def Let_def s1(5))
qed

lemma commit_cursor_in_range:
  assumes "startIndex s = Num n" and "\<bar>n + int (length (stageItems Stage1 s))\<bar> \<le> 2 ^ 53"
  shows "startIndex (snd (moveToStage2 True s)) = Num (n + int (length (stageItems Stage1 s)))"
proof -
  have "startIndex (snd (moveToStage2 True s)) =
          jsAdd (Num n) (int (length (stageItems Stage1 s)))"
    by (simp add: moveToStage2_def Let_def stageItems_def assms(1) del: jsAdd.simps)
  also have "\<dots> = Num (n + int (length (stageItems Stage1 s)))"
    using assms(2) by (rule jsAdd_safe)
  finally show ?thesis .
qed

text \<open>
  C1 as the specification states it fails once the numbers leave the range in which a
  JavaScript number counts exactly. With the start index set to \<open>2^53\<close> the sum
  \<open>2^53 + 1\<close> rounds back to \<open>2^53\<close>: committing one item does not advance the start
  index, and the item of the next batch is given the name the first one has.
\<close>

theorem moveToStage2_cursor_stalls_counterexample:
  "startIndex (run initialState (take 2 precisionEvents)) = Num 9007199254740992
   \<and> length (stageItems Stage1 (run initialState (take 2 precisionEvents))) = 1
   \<and> startIndex (snd (moveToStage2 True (run initialState (take 2 precisionEvents))))
       = Num 9007199254740992
   \<and> map stage (queue (run initialState precisionEvents)) = [Stage2, Stage2]
   \<and> map originalName (queue (run initialState precisionEvents)) = [''a.jpg'', ''b.jpg'']
   \<and> map newName (queue (run initialState precisionEvents))
       = [Some ''01-9007199254740992.jpg'', Some ''01-9007199254740992.jpg'']"
  by (simp add: precisionEvents_def stageItems_def rounding_at_two_to_53 eval_defs
        del: jsAdd.simps)

text \<open>
  C1, as amended. A confirmed \<open>moveToStage2\<close> keeps the length of the queue, gives every
  stage-1 item its current \<open>previewName\<close> as \<open>newName\<close> and moves it to stage 2, leaves
  the other items and the prefix alone; a declined one changes nothing. When the start
  index is an integer \<open>n\<close> and both \<open>n\<close> and \<open>n\<close> plus the number of stage-1 items are at
  most \<open>2^53\<close> in magnitude, the new start index is \<open>n\<close> plus that number. Consequently,
  from a state with no stage-1 item and such a start index \<open>n\<close>, ingesting accepted files
  and committing appends the names numbered \<open>n\<close>, \<open>n + 1\<close>, ... in input order, each with
  the extension of its file, and leaves the start index at \<open>n\<close> plus the number of files:
  the next batch continues where this one ended, and since names built with one prefix
  from two different numbers of that range differ, its names collide with none of the
  batch before. With start index 5 and prefix \<open>01-\<close>, three files and then two files get
  the numbers 005, 006, 007 and then 008, 009.
\<close>

theorem moveToStage2_freezes_names_and_advances_cursor:
  "length (queue (snd (moveToStage2 True s))) = length (queue s)
   \<and> (\<forall>i < length (queue s).
         queue (snd (moveToStage2 True s)) ! i =
           (if stage (queue s ! i) = Stage1
            then (queue s ! i)\<lparr>stage := Stage2, newName := previewName (queue s ! i),
                                status := Idle\<rparr>
            else queue s ! i))
   \<and> (startIndex s = Num n \<and> \<bar>n\<bar> \<le> 2 ^ 53
        \<and> \<bar>n + int (length (stageItems Stage1 s))\<bar> \<le> 2 ^ 53 \<longrightarrow>
        startIndex (snd (moveToStage2 True s)) = Num (n + int (length (stageItems Stage1 s))))
   \<and> prefix (snd (moveToStage2 True s)) = prefix s
   \<and> snd (moveToStage2 False s) = s
   \<and> ((\<forall>it\<in>set (queue s). stage it \<noteq> Stage1) \<and> (\<forall>f\<in>set files. accepted s f)
        \<and> startIndex s = Num n \<and> \<bar>n\<bar> \<le> 2 ^ 53 \<and> \<bar>n + int (length files)\<bar> \<le> 2 ^ 53 \<longrightarrow>
        map newName (queue (run s [ProcessFiles random files, MoveToStage2 True])) =
          map newName (queue s)
          @ map (\<lambda>(k, f). Some (sequenceName (prefix s) (Num (n + int k)) (name f)))
              (enumerate 0 files)
        \<and> map stage (queue (run s [ProcessFiles random files, MoveToStage2 True])) =
          map stage (queue s) @ replicate (length files) Stage2
        \<and> startIndex (run s [ProcessFiles random files, MoveToStage2 True]) =
          Num (n + int (length files))
        \<and> prefix (run s [ProcessFiles random files, MoveToStage2 True]) = prefix s)
   \<and> (\<bar>a\<bar> \<le> 2 ^ 53 \<and> \<bar>b\<bar> \<le> 2 ^ 53 \<and> a \<noteq> b \<longrightarrow>
        sequenceName pre (Num a) x \<noteq> sequenceName pre (Num b) y)"
proof -
  have a: "length (queue (snd (moveToStage2 True s))) = length (queue s)"
    by (simp add: moveToStage2_def Let_def)
  have b: "\<forall>i < length (queue s).
         queue (snd (moveToStage2 True s)) ! i =
           (if stage (queue s ! i) = Stage1
            then (queue s ! i)\<lparr>stage := Stage2, newName := previewName (queue s ! i),
                                status := Idle\<rparr>
            else queue s ! i)"
    by (simp add: moveToStage2_def Let_def)
  have d: "startIndex s = Num n \<and> \<bar>n\<bar> \<le> 2 ^ 53
        \<and> \<bar>n + int (length (stageItems Stage1 s))\<bar> \<le> 2 ^ 53 \<longrightarrow>
        startIndex (snd (moveToStage2 True s)) = Num (n + int (length (stageItems Stage1 s)))"
    using commit_cursor_in_range[of s n] by blast
  have e: "prefix (snd (moveToStage2 True s)) = prefix s" "snd (moveToStage2 False s) = s"
    by (simp_all add: moveToStage2_def Let_def)
  note f = batch_commit[of s files n random]
  have g: "\<bar>a\<bar> \<le> 2 ^ 53 \<and> \<bar>b\<bar> \<le> 2 ^ 53 \<and> a \<noteq> b \<longrightarrow>
        sequenceName pre (Num a) x \<noteq> sequenceName pre (Num b) y"
    using sequenceName_inj[of pre a x b y] by blast
  from a b d e f g show ?thesis by blast
qed

theorem moveToStage2_freezes_names_and_advances_cursor_witness:
  "startIndex startFive = Num 5 \<and> prefix startFive = ''01-''
   \<and> map newName (queue (run startFive [ProcessFiles (exampleIds ''a'') batchOne, MoveToStage2 True]))
       = [Some ''01-005.jpg'', Some ''01-006.png'', Some ''01-007.webp'']
   \<and> map newName
         (queue (run (run startFive [ProcessFiles (exampleIds ''a'') batchOne, MoveToStage2 True])
                   [ProcessFiles (exampleIds ''b'') batchTwo, MoveToStage2 True]))
       = [Some ''01-005.jpg'', Some ''01-006.png'', Some ''01-007.webp'',
          Some ''01-008.jpg'', Some ''01-009.png'']
   \<and> startIndex
         (run (run startFive [ProcessFiles (exampleIds ''a'') batchOne, MoveToStage2 True])
            [ProcessFiles (exampleIds ''b'') batchTwo, MoveToStage2 True]) = Num 10
   \<and> length (stageItems Stage1 (step startFive (ProcessFiles (exampleIds ''a'') batchOne))) = 3
   \<and> startIndex (snd (moveToStage2 True
         (step startFive (ProcessFiles (exampleIds ''a'') batchOne)))) = Num 8
   \<and> sequenceName ''01-'' (Num 7) ''c.webp'' \<noteq> sequenceName ''01-'' (Num 8) ''a.jpg''"
proof -
  let ?s1 = "step startFive (ProcessFiles (exampleIds ''a'') batchOne)"
  let ?s2 = "run startFive [ProcessFiles (exampleIds ''a'') batchOne, MoveToStage2 True]"
  let ?s4 = "run ?s2 [ProcessFiles (exampleIds ''b'') batchTwo, MoveToStage2 True]"
  have s0: "startIndex startFive = Num 5" "prefix startFive = ''01-''" "queue startFive = []"
    by (simp_all add: startFive_def eval_defs)
  have h1: "(\<forall>it\<in>set (queue startFive). stage it \<noteq> Stage1)
      \<and> (\<forall>f\<in>set batchOne. accepted startFive f) \<and> startIndex startFive = Num 5
      \<and> \<bar>5::int\<bar> \<le> 2 ^ 53 \<and> \<bar>5 + int (length batchOne)\<bar> \<le> 2 ^ 53"
    by (simp add: startFive_def batchOne_def accepted_def endsWith_iff[symmetric] groupLabel_def
          eval_defs)
  from moveToStage2_freezes_names_and_advances_cursor
         [of startFive 5 batchOne "exampleIds ''a''"] h1
  have n2: "map newName (queue ?s2) =
          map newName (queue startFive)
          @ map (\<lambda>(k, f). Some (sequenceName (prefix startFive) (Num (5 + int k)) (name f)))
              (enumerate 0 batchOne)"
    and st2: "map stage (queue ?s2) = map stage (queue startFive) @ replicate (length batchOne) Stage2"
    and i2: "startIndex ?s2 = Num (5 + int (length batchOne))"
    and p2: "prefix ?s2 = prefix startFive"
    by blast+
  have names2: "map newName (queue ?s2) = [Some ''01-005.jpg'', Some ''01-006.png'', Some ''01-007.webp'']"
    unfolding n2
    by (simp add: s0 batchOne_def sequenceName_def exampleFile_def getExtension_def slice_def
          lastIndexOf_def toUint32_def intToString_def digits.simps digitChar_def
          replicate_numeral enumerate_eq_zip roundDouble_small)
  have h2: "(\<forall>it\<in>set (queue ?s2). stage it \<noteq> Stage1)
      \<and> (\<forall>f\<in>set batchTwo. accepted ?s2 f) \<and> startIndex ?s2 = Num 8
      \<and> \<bar>8::int\<bar> \<le> 2 ^ 53 \<and> \<bar>8 + int (length batchTwo)\<bar> \<le> 2 ^ 53"
    by (simp add: startFive_def batchOne_def batchTwo_def accepted_def endsWith_iff[symmetric]
          groupLabel_def eval_defs)
  from moveToStage2_freezes_names_and_advances_cursor
         [of ?s2 8 batchTwo "exampleIds ''b''"] h2
  have n4: "map newName (queue ?s4) =
          map newName (queue ?s2)
          @ map (\<lambda>(k, f). Some (sequenceName (prefix ?s2) (Num (8 + int k)) (name f)))
              (enumerate 0 batchTwo)"
    and i4: "startIndex ?s4 = Num (8 + int (length batchTwo))"
    by blast+
  have names4: "map newName (queue ?s4) =
      [Some ''01-005.jpg'', Some ''01-006.png'', Some ''01-007.webp'',
       Some ''01-008.jpg'', Some ''01-009.png'']"
    unfolding n4 names2 p2
    by (simp add: s0 batchTwo_def sequenceName_def exampleFile_def getExtension_def slice_def
          lastIndexOf_def toUint32_def intToString_def digits.simps digitChar_def
          replicate_numeral enumerate_eq_zip roundDouble_small)
  have i10: "startIndex ?s4 = Num 10" unfolding i4 by (simp add: batchTwo_def)
  have c3: "length (stageItems Stage1 ?s1) = 3"
    by (simp add: startFive_def batchOne_def stageItems_def eval_defs)
  have h3: "startIndex ?s1 = Num 5 \<and> \<bar>5::int\<bar> \<le> 2 ^ 53
      \<and> \<bar>5 + int (length (stageItems Stage1 ?s1))\<bar> \<le> 2 ^ 53"
    unfolding c3 by (simp add: startFive_def batchOne_def eval_defs)
  from moveToStage2_freezes_names_and_advances_cursor[of ?s1 5] h3
  have "startIndex (snd (moveToStage2 True ?s1)) = Num (5 + int (length (stageItems Stage1 ?s1)))"
    by blast
  then have i8: "startIndex (snd (moveToStage2 True ?s1)) = Num 8" unfolding c3 by simp
  have "\<bar>7::int\<bar> \<le> 2 ^ 53 \<and> \<bar>8::int\<bar> \<le> 2 ^ 53 \<and> (7::int) \<noteq> 8" by simp
  with moveToStage2_freezes_names_and_advances_cursor
         [of startFive 5 batchOne "exampleIds ''a''" 7 8 "''01-''" "''c.webp''" "''a.jpg''"]
  have d78: "sequenceName ''01-'' (Num 7) ''c.webp'' \<noteq> sequenceName ''01-'' (Num 8) ''a.jpg''"
    by blast
  from s0 names2 names4 i10 c3 i8 d78 show ?thesis by simp
qed
end
